theory Spec2Isabelle
  imports Main
begin

section \<open>Execution contexts of effection (packages/effection/src/context.js)\<close>

text \<open>
  The class \<^verbatim>\<open>ExecutionContext\<close> is embedded over an explicit store: a context object is
  addressed by its \<^verbatim>\<open>id\<close> (the constructor hands out fresh ids, so the id is the
  object's identity), and every method takes the store and returns the updated one.
  Exceptions are values: a method call completes as \<open>Normal\<close> or as \<open>Abrupt\<close>, in both
  cases with the store as it stands at that moment, since JavaScript keeps the mutations
  made before a throw.
\<close>

subsection \<open>JavaScript values\<close>

text \<open>
  The values that flow through \<^verbatim>\<open>resume\<close>, \<^verbatim>\<open>fail\<close> and \<^verbatim>\<open>halt\<close>. \<open>VCtx n\<close> is a
  reference to the context object with id \<open>n\<close>, \<open>VObj i\<close> any other object (identity
  \<open>i\<close>), \<open>VResource i n\<close> an object (identity \<open>i\<close>) that has the context \<open>n\<close> attached to
  it. Numbers are restricted to integers.
\<close>

text \<open>
  Modelled from the spec: \<^verbatim>\<open>HaltError\<close> is imported from \<^verbatim>\<open>./control\<close>, which is not part of
  the sources at hand; the spec calls it "a distinct cancellation-error kind wrapping the
  stored reason", which is the constructor \<open>VHaltError\<close>.
\<close>

datatype val =
    VUndefined
  | VNull
  | VBool bool
  | VNum int
  | VStr string
  | VObj nat
  | VCtx nat
  | VResource nat nat
  | VHaltError val

text \<open>JavaScript's truthiness, which decides \<^verbatim>\<open>a || b\<close>.\<close>

fun truthy :: "val \<Rightarrow> bool" where
  "truthy VUndefined = False"
| "truthy VNull = False"
| "truthy (VBool b) = b"
| "truthy (VNum i) = (i \<noteq> 0)"
| "truthy (VStr s) = (s \<noteq> [])"
| "truthy (VObj n) = True"
| "truthy (VCtx n) = True"
| "truthy (VResource i n) = True"
| "truthy (VHaltError v) = True"

text \<open>
  Modelled from the spec: \<^verbatim>\<open>contextOf\<close> is imported from \<^verbatim>\<open>./resource\<close>, which is not part of
  the sources at hand. The spec describes it as \<^verbatim>\<open>extractTask(value) -> TaskNode | none\<close>,
  which detects "when a settled value is itself a nested task" or embeds one. The methods
  below take the extraction as a parameter \<open>cof\<close>, and the theorems about them hold for
  every such function; \<open>contextOf\<close> is the instance used to run examples.
\<close>

fun contextOf :: "val \<Rightarrow> nat option" where
  "contextOf (VCtx n) = Some n"
| "contextOf (VResource i n) = Some n"
| "contextOf v = None"

definition js_or :: "val \<Rightarrow> val \<Rightarrow> val" where
  "js_or a b = (if truthy a then a else b)"

subsection \<open>The store\<close>

datatype state = Unstarted | Running | Waiting | Completed | Errored | Halted

text \<open>
  An exit hook is a closure of the caller. Of its behaviour the model keeps what
  \<^verbatim>\<open>finalize\<close> and \<^verbatim>\<open>ensure\<close> can observe: that it was called (with which argument) and
  whether it returned or threw. Hooks that call back into the tree are outside the model.
\<close>

datatype hook = Hook (label: nat) (throws: "val option")

text \<open>
  What the outside can observe of a run, in order: every call of a hook, with the context
  it was bound to (\<^verbatim>\<open>hook.bind(null, this)\<close>) or \<open>None\<close> for the bare call \<^verbatim>\<open>hook()\<close>;
  every \<^verbatim>\<open>console.error\<close>; and every \<^verbatim>\<open>child.halt(result)\<close> that the cascade of
  \<^verbatim>\<open>finalize\<close> issues, with the finalizing context, the child and the reason.
\<close>

datatype event =
    HookCall hook "nat option"
  | ConsoleError val
  | CascadeHalt nat nat val

datatype pstate = Pending | Resolved val | Rejected val

datatype error = SelfLink | HookThrew val | StackOverflow

record execution_context =
  state :: state
  isRequired :: bool
  blockOnReturnedContext :: bool
  children :: "nat list"
  exitHooks :: "(nat \<times> hook) list"
  parent :: "nat option"
  result :: val
  operation :: "val option"
  resolve :: "nat option"
  reject :: "nat option"
  promise_field :: "nat option"

text \<open>
  \<open>children\<close> and \<open>exitHooks\<close> are JavaScript \<^verbatim>\<open>Set\<close>s, which iterate in insertion
  order: lists here. An exit hook is stored as the bound function \<^verbatim>\<open>run\<close>, a fresh
  object at every \<^verbatim>\<open>ensure\<close>; the first component of an entry is that object's identity.
  \<open>resolve\<close> and \<open>reject\<close> hold the callbacks of a promise, named by the promise.
\<close>

record world =
  ctxs :: "nat \<Rightarrow> execution_context"
  ids :: nat
  promises :: "nat \<Rightarrow> pstate"
  next_promise :: nat
  next_fn :: nat
  trace :: "event list"

datatype 'a completion = Normal 'a world | Abrupt error world

fun world_of :: "'a completion \<Rightarrow> world" where
  "world_of (Normal x w) = w"
| "world_of (Abrupt e w) = w"

definition upd :: "nat \<Rightarrow> (execution_context \<Rightarrow> execution_context) \<Rightarrow> world \<Rightarrow> world" where
  "upd n f w = w\<lparr>ctxs := (ctxs w)(n := f (ctxs w n))\<rparr>"

definition emit :: "event \<Rightarrow> world \<Rightarrow> world" where
  "emit e w = w\<lparr>trace := trace w @ [e]\<rparr>"

text \<open>\<^verbatim>\<open>Set.prototype.add\<close> and \<^verbatim>\<open>Set.prototype.delete\<close>.\<close>

definition set_add :: "'a \<Rightarrow> 'a list \<Rightarrow> 'a list" where
  "set_add x xs = (if x \<in> set xs then xs else xs @ [x])"

definition set_delete :: "'a \<Rightarrow> 'a list \<Rightarrow> 'a list" where
  "set_delete x xs = removeAll x xs"

subsection \<open>Getters and constructor\<close>

definition isUnstarted :: "world \<Rightarrow> nat \<Rightarrow> bool" where
  "isUnstarted w n = (state (ctxs w n) = Unstarted)"

definition isRunning :: "world \<Rightarrow> nat \<Rightarrow> bool" where
  "isRunning w n = (state (ctxs w n) = Running)"

definition isWaiting :: "world \<Rightarrow> nat \<Rightarrow> bool" where
  "isWaiting w n = (state (ctxs w n) = Waiting)"

definition isCompleted :: "world \<Rightarrow> nat \<Rightarrow> bool" where
  "isCompleted w n = (state (ctxs w n) = Completed)"

definition isErrored :: "world \<Rightarrow> nat \<Rightarrow> bool" where
  "isErrored w n = (state (ctxs w n) = Errored)"

definition isHalted :: "world \<Rightarrow> nat \<Rightarrow> bool" where
  "isHalted w n = (state (ctxs w n) = Halted)"

definition isBlocking :: "world \<Rightarrow> nat \<Rightarrow> bool" where
  "isBlocking w n = (isRunning w n \<or> isWaiting w n \<or> isUnstarted w n)"

definition fresh_context :: "bool \<Rightarrow> bool \<Rightarrow> execution_context" where
  "fresh_context req block =
     \<lparr>state = Unstarted, isRequired = req, blockOnReturnedContext = block,
      children = [], exitHooks = [], parent = None, result = VUndefined,
      operation = None, resolve = None, reject = None, promise_field = None\<rparr>"

text \<open>\<^verbatim>\<open>new ExecutionContext({ isRequired, blockOnReturnedContext })\<close>: returns the new id.\<close>

definition new_context :: "bool \<Rightarrow> bool \<Rightarrow> world \<Rightarrow> nat \<times> world" where
  "new_context req block w =
     (ids w, w\<lparr>ctxs := (ctxs w)(ids w := fresh_context req block), ids := ids w + 1\<rparr>)"

subsection \<open>The deferred-result facade\<close>

text \<open>
  A promise settles once: calling its \<^verbatim>\<open>resolve\<close> or \<^verbatim>\<open>reject\<close> after that does
  nothing. \<open>Resolved v\<close> records that \<^verbatim>\<open>resolve(v)\<close> was called first; what the promise
  machinery then does with \<open>v\<close> (microtasks, thenables) is outside the model.
\<close>

definition settle :: "nat \<Rightarrow> pstate \<Rightarrow> world \<Rightarrow> world" where
  "settle p s w = (if promises w p = Pending then w\<lparr>promises := (promises w)(p := s)\<rparr> else w)"

definition finalizePromise :: "nat \<Rightarrow> world \<Rightarrow> world" where
  "finalizePromise n w =
     (if isCompleted w n \<and> resolve (ctxs w n) \<noteq> None then
        settle (the (resolve (ctxs w n))) (Resolved (result (ctxs w n))) w
      else if isErrored w n \<and> reject (ctxs w n) \<noteq> None then
        settle (the (reject (ctxs w n))) (Rejected (result (ctxs w n))) w
      else if isHalted w n \<and> reject (ctxs w n) \<noteq> None then
        settle (the (reject (ctxs w n))) (Rejected (VHaltError (result (ctxs w n)))) w
      else w)"

text \<open>The getter \<^verbatim>\<open>promise\<close>: a new promise at every access; returns the promise.\<close>

definition promise :: "nat \<Rightarrow> world \<Rightarrow> nat \<times> world" where
  "promise n w =
     (let p = next_promise w;
          w1 = w\<lparr>promises := (promises w)(p := Pending), next_promise := p + 1\<rparr>;
          w2 = upd n (\<lambda>c. c\<lparr>promise_field := Some p, resolve := Some p, reject := Some p\<rparr>) w1
      in (p, finalizePromise n w2))"

subsection \<open>Exit hooks\<close>

text \<open>
  What \<^verbatim>\<open>ensure\<close> returns: the closure \<^verbatim>\<open>() => this.exitHooks.delete(run)\<close>, or the
  identity function \<^verbatim>\<open>x => x\<close>.
\<close>

datatype unregister = DeleteHook nat nat | Identity

definition ensure :: "nat \<Rightarrow> hook \<Rightarrow> world \<Rightarrow> unregister completion" where
  "ensure n h w =
     (if isBlocking w n then
        (let run = next_fn w;
             w1 = upd n (\<lambda>c. c\<lparr>exitHooks := exitHooks c @ [(run, h)]\<rparr>) (w\<lparr>next_fn := run + 1\<rparr>)
         in Normal (DeleteHook n run) w1)
      else
        (case throws h of
           None \<Rightarrow> Normal Identity (emit (HookCall h None) w)
         | Some e \<Rightarrow> Abrupt (HookThrew e) (emit (HookCall h None) w)))"

definition call_unregister :: "unregister \<Rightarrow> world \<Rightarrow> world" where
  "call_unregister u w =
     (case u of
        DeleteHook n run \<Rightarrow> upd n (\<lambda>c. c\<lparr>exitHooks := filter (\<lambda>e. fst e \<noteq> run) (exitHooks c)\<rparr>) w
      | Identity \<Rightarrow> w)"

text \<open>
  The body of the hook loop of \<^verbatim>\<open>finalize\<close>: \<^verbatim>\<open>try { hook() } catch(e) { console.error(...) }\<close>.
\<close>

definition critical_banner :: val where
  "critical_banner = VStr ''CRITICAL ERROR: an exception was thrown in an exit handler''"

definition run_hook :: "nat \<Rightarrow> hook \<Rightarrow> world \<Rightarrow> world" where
  "run_hook n h w =
     (case throws h of
        None \<Rightarrow> emit (HookCall h (Some n)) w
      | Some e \<Rightarrow> emit (ConsoleError e) (emit (ConsoleError critical_banner) (emit (HookCall h (Some n)) w)))"

fun run_exitHooks :: "nat \<Rightarrow> (nat \<times> hook) list \<Rightarrow> world \<Rightarrow> world" where
  "run_exitHooks n [] w = w"
| "run_exitHooks n (e # es) w = run_exitHooks n es (run_hook n (snd e) w)"

subsection \<open>Linking and settlement\<close>

definition unlink :: "nat \<Rightarrow> nat \<Rightarrow> world \<Rightarrow> world" where
  "unlink p c w =
     upd p (\<lambda>x. x\<lparr>children := set_delete c (children x)\<rparr>) (upd c (\<lambda>x. x\<lparr>parent := None\<rparr>) w)"

text \<open>
  \<^verbatim>\<open>halt\<close>, \<^verbatim>\<open>fail\<close>, \<^verbatim>\<open>finalize\<close>, \<^verbatim>\<open>trapExit\<close> and \<^verbatim>\<open>link\<close> call each other. The first
  argument bounds the depth of the nesting: an effective \<^verbatim>\<open>finalize\<close> and a \<^verbatim>\<open>trapExit\<close>
  each take one level, and with none left the call throws, as JavaScript does when the
  call stack is exhausted. \<open>halt_children\<close> is the loop over the children in \<^verbatim>\<open>finalize\<close>.

  The first argument \<open>cof\<close> stands for \<^verbatim>\<open>contextOf\<close>.
\<close>

function (sequential) halt :: "(val \<Rightarrow> nat option) \<Rightarrow> nat \<Rightarrow> nat \<Rightarrow> val \<Rightarrow> world \<Rightarrow> unit completion"
and fail :: "(val \<Rightarrow> nat option) \<Rightarrow> nat \<Rightarrow> nat \<Rightarrow> val \<Rightarrow> world \<Rightarrow> unit completion"
and finalize :: "(val \<Rightarrow> nat option) \<Rightarrow> nat \<Rightarrow> nat \<Rightarrow> state \<Rightarrow> val \<Rightarrow> world \<Rightarrow> unit completion"
and halt_children :: "(val \<Rightarrow> nat option) \<Rightarrow> nat \<Rightarrow> nat \<Rightarrow> val \<Rightarrow> nat list \<Rightarrow> world \<Rightarrow> unit completion"
and trapExit :: "(val \<Rightarrow> nat option) \<Rightarrow> nat \<Rightarrow> nat \<Rightarrow> nat \<Rightarrow> world \<Rightarrow> unit completion"
and link :: "(val \<Rightarrow> nat option) \<Rightarrow> nat \<Rightarrow> nat \<Rightarrow> nat \<Rightarrow> world \<Rightarrow> unit completion"
where
  "halt cof k n reason w =
     (if isBlocking w n then finalize cof k n Halted reason w else Normal () w)"
| "fail cof k n err w =
     (if isBlocking w n then finalize cof k n Errored err w else Normal () w)"
| "finalize cof 0 n st res w =
     (if isBlocking w n then Abrupt StackOverflow w else Normal () w)"
| "finalize cof (Suc k) n st res w =
     (if isBlocking w n then
        (let w1 = upd n (\<lambda>c. c\<lparr>state := st, result := js_or res (result c)\<rparr>) w in
         case halt_children cof k n res (rev (children (ctxs w1 n))) w1 of
           Abrupt e w' \<Rightarrow> Abrupt e w'
         | Normal _ w2 \<Rightarrow>
             (let w3 = run_exitHooks n (rev (exitHooks (ctxs w2 n))) w2 in
              case (case parent (ctxs w3 n) of
                      Some p \<Rightarrow> trapExit cof k p n w3
                    | None \<Rightarrow> Normal () w3) of
                Abrupt e w' \<Rightarrow> Abrupt e w'
              | Normal _ w4 \<Rightarrow> Normal () (finalizePromise n w4)))
      else Normal () w)"
| "halt_children cof k n res [] w = Normal () w"
| "halt_children cof k n res (child # rest) w =
     (if blockOnReturnedContext (ctxs w n) \<or> cof (result (ctxs w n)) \<noteq> Some child then
        (case halt cof k child res (emit (CascadeHalt n child res) w) of
           Abrupt e w' \<Rightarrow> Abrupt e w'
         | Normal _ w' \<Rightarrow> halt_children cof k n res rest w')
      else halt_children cof k n res rest w)"
| "trapExit cof 0 p child w = Abrupt StackOverflow w"
| "trapExit cof (Suc k) p child w =
     (let w1 = unlink p child w in
      case (if isCompleted w1 child then
              (case cof (result (ctxs w1 child)) of
                 Some d \<Rightarrow> link cof k p d w1
               | None \<Rightarrow> Normal () w1)
            else Normal () w1) of
        Abrupt e w' \<Rightarrow> Abrupt e w'
      | Normal _ w2 \<Rightarrow>
          (if isErrored w2 child then fail cof k p (result (ctxs w2 child)) w2
           else if isWaiting w2 p \<and> list_all (\<lambda>c. \<not> isRequired (ctxs w2 c)) (children (ctxs w2 p))
           then finalize cof k p Completed VUndefined w2
           else Normal () w2))"
| "link cof k p child w =
     (if p = child then Abrupt SelfLink w
      else
        case (if \<not> isBlocking w p then halt cof k child VUndefined w else Normal () w) of
          Abrupt e w' \<Rightarrow> Abrupt e w'
        | Normal _ w1 \<Rightarrow>
            (let w2 = (case parent (ctxs w1 child) of
                         Some q \<Rightarrow> unlink q child w1
                       | None \<Rightarrow> w1) in
             if isBlocking w2 child then
               Normal () (upd p (\<lambda>x. x\<lparr>children := set_add child (children x)\<rparr>)
                            (upd child (\<lambda>x. x\<lparr>parent := Some p\<rparr>) w2))
             else trapExit cof k p child w2))"

  by pat_completeness auto

termination
  by (relation "measures
        [\<lambda>x. case x of
              Inl (Inl (cof, k, r)) \<Rightarrow> k
            | Inl (Inr (Inl (cof, k, r))) \<Rightarrow> k
            | Inl (Inr (Inr (cof, k, r))) \<Rightarrow> k
            | Inr (Inl (cof, k, r)) \<Rightarrow> k
            | Inr (Inr (Inl (cof, k, r))) \<Rightarrow> k
            | Inr (Inr (Inr (cof, k, r))) \<Rightarrow> k,
         \<lambda>x. case x of
              Inl (Inl r) \<Rightarrow> 1
            | Inl (Inr (Inl r)) \<Rightarrow> 1
            | Inl (Inr (Inr r)) \<Rightarrow> 0
            | Inr (Inl r) \<Rightarrow> 2
            | Inr (Inr (Inl r)) \<Rightarrow> 0
            | Inr (Inr (Inr r)) \<Rightarrow> (2::nat),
         \<lambda>x. case x of
              Inr (Inl (cof, k, n, res, cs, w)) \<Rightarrow> length cs
            | _ \<Rightarrow> 0]") auto


text \<open>
  \<^verbatim>\<open>resume\<close>, in two parts: \<open>resume_record\<close> is the block under \<^verbatim>\<open>if (this.isRunning)\<close>,
  which stores the value and links the context it embeds; \<open>resume\<close> then looks at the
  children as they are after that.
\<close>

definition resume_record :: "(val \<Rightarrow> nat option) \<Rightarrow> nat \<Rightarrow> nat \<Rightarrow> val \<Rightarrow> world \<Rightarrow> unit completion" where
  "resume_record cof k n v w =
     (if isRunning w n then
        (let w1 = upd n (\<lambda>c. c\<lparr>result := v\<rparr>) w in
         case cof v of
           Some c \<Rightarrow> link cof k n c w1
         | None \<Rightarrow> Normal () w1)
      else Normal () w)"

definition resume :: "(val \<Rightarrow> nat option) \<Rightarrow> nat \<Rightarrow> nat \<Rightarrow> val \<Rightarrow> world \<Rightarrow> unit completion" where
  "resume cof k n v w =
     (if isBlocking w n then
        (case resume_record cof k n v w of
           Abrupt e w' \<Rightarrow> Abrupt e w'
         | Normal _ w2 \<Rightarrow>
             (if list_ex (\<lambda>c. if v = VCtx c then blockOnReturnedContext (ctxs w2 n)
                               else isRequired (ctxs w2 c)) (children (ctxs w2 n))
              then Normal () (upd n (\<lambda>c. c\<lparr>state := Waiting\<rparr>) w2)
              else finalize cof k n Completed v w2))
      else Normal () w)"

definition terminal :: "state \<Rightarrow> bool" where
  "terminal st = (st = Completed \<or> st = Errored \<or> st = Halted)"

fun actor :: "event \<Rightarrow> nat option" where
  "actor (HookCall h a) = a"
| "actor (ConsoleError v) = None"
| "actor (CascadeHalt n c r) = Some n"

definition events_of :: "nat \<Rightarrow> world \<Rightarrow> event list" where
  "events_of n w = filter (\<lambda>e. actor e = Some n) (trace w)"

definition same_static :: "world \<Rightarrow> world \<Rightarrow> bool" where
  "same_static w w' =
     ((\<forall>m. isRequired (ctxs w' m) = isRequired (ctxs w m)
         \<and> blockOnReturnedContext (ctxs w' m) = blockOnReturnedContext (ctxs w m)
         \<and> exitHooks (ctxs w' m) = exitHooks (ctxs w m)
         \<and> operation (ctxs w' m) = operation (ctxs w m)
         \<and> resolve (ctxs w' m) = resolve (ctxs w m)
         \<and> reject (ctxs w' m) = reject (ctxs w m)
         \<and> promise_field (ctxs w' m) = promise_field (ctxs w m))
      \<and> ids w' = ids w \<and> next_promise w' = next_promise w \<and> next_fn w' = next_fn w)"

definition trace_grows :: "world \<Rightarrow> world \<Rightarrow> bool" where
  "trace_grows w w' = (\<exists>es. trace w' = trace w @ es)"

definition sticky :: "world \<Rightarrow> world \<Rightarrow> bool" where
  "sticky w w' =
     (\<forall>m. \<not> isBlocking w m \<longrightarrow>
           state (ctxs w' m) = state (ctxs w m)
           \<and> result (ctxs w' m) = result (ctxs w m)
           \<and> set (children (ctxs w' m)) \<subseteq> set (children (ctxs w m)))"

definition settling :: "world \<Rightarrow> world \<Rightarrow> bool" where
  "settling w w' =
     (\<forall>m. state (ctxs w' m) \<noteq> state (ctxs w m) \<or> result (ctxs w' m) \<noteq> result (ctxs w m) \<longrightarrow>
           terminal (state (ctxs w' m)))"

definition evolve :: "world \<Rightarrow> world \<Rightarrow> bool" where
  "evolve w w' = (same_static w w' \<and> trace_grows w w' \<and> sticky w w' \<and> settling w w')"

definition refers :: "world \<Rightarrow> nat \<Rightarrow> nat \<Rightarrow> bool" where
  "refers w m p = (resolve (ctxs w m) = Some p \<or> reject (ctxs w m) = Some p)"

definition okw :: "nat set \<Rightarrow> nat set \<Rightarrow> world \<Rightarrow> world \<Rightarrow> bool" where
  "okw X Y w w' =
     (evolve w w'
      \<and> (\<forall>m. \<not> isBlocking w m \<longrightarrow> m \<notin> X \<longrightarrow> events_of m w' = events_of m w)
      \<and> (\<forall>p. promises w' p \<noteq> promises w p \<longrightarrow>
             promises w p = Pending \<and> (\<exists>m. refers w m p \<and> (isBlocking w m \<or> m \<in> Y))))"

definition settles :: "nat \<Rightarrow> unit completion \<Rightarrow> bool" where
  "settles n r = (\<forall>u w'. r = Normal u w' \<longrightarrow> \<not> isBlocking w' n)"

text \<open>The events that the hook loop of a context adds to the trace.\<close>

fun hook_events :: "nat \<Rightarrow> hook \<Rightarrow> event list" where
  "hook_events n h =
     (case throws h of
        None \<Rightarrow> [HookCall h (Some n)]
      | Some e \<Rightarrow> [HookCall h (Some n), ConsoleError critical_banner, ConsoleError e])"

text \<open>The children that the cascade of \<open>n\<close> halts: all but a returned one that is handed off.\<close>

definition spared :: "(val \<Rightarrow> nat option) \<Rightarrow> world \<Rightarrow> nat \<Rightarrow> nat \<Rightarrow> bool" where
  "spared cof w n c = (\<not> blockOnReturnedContext (ctxs w n) \<and> cof (result (ctxs w n)) = Some c)"

fun returns :: "'a completion \<Rightarrow> bool" where
  "returns (Normal x w) = True"
| "returns (Abrupt e w) = False"

definition weakly :: "world \<Rightarrow> world \<Rightarrow> bool" where
  "weakly w w' =
     (same_static w w' \<and> trace_grows w w' \<and> sticky w w'
      \<and> (\<forall>p. promises w' p \<noteq> promises w p \<longrightarrow> promises w p = Pending \<and> (\<exists>m. refers w m p)))"

datatype call =
    Halt nat val
  | Fail nat val
  | Resume nat val
  | Finalize nat state val
  | TrapExit nat nat
  | Link nat nat
  | Unlink nat nat
  | Ensure nat hook
  | Unregister unregister
  | Promise nat

fun perform :: "(val \<Rightarrow> nat option) \<Rightarrow> nat \<Rightarrow> call \<Rightarrow> world \<Rightarrow> world" where
  "perform cof k (Halt n r) w = world_of (halt cof k n r w)"
| "perform cof k (Fail n e) w = world_of (fail cof k n e w)"
| "perform cof k (Resume n v) w = world_of (resume cof k n v w)"
| "perform cof k (Finalize n st r) w = world_of (finalize cof k n st r w)"
| "perform cof k (TrapExit p c) w = world_of (trapExit cof k p c w)"
| "perform cof k (Link p c) w = world_of (link cof k p c w)"
| "perform cof k (Unlink p c) w = unlink p c w"
| "perform cof k (Ensure n h) w = world_of (ensure n h w)"
| "perform cof k (Unregister u) w = call_unregister u w"
| "perform cof k (Promise n) w = snd (promise n w)"

fun perform_all :: "(val \<Rightarrow> nat option) \<Rightarrow> nat \<Rightarrow> call list \<Rightarrow> world \<Rightarrow> world" where
  "perform_all cof k [] w = w"
| "perform_all cof k (c # cs) w = perform_all cof k cs (perform cof k c w)"



text \<open>How \<^verbatim>\<open>finalizePromise\<close> settles the promise, by the state of the context.\<close>

fun settlement :: "state \<Rightarrow> val \<Rightarrow> pstate" where
  "settlement Completed r = Resolved r"
| "settlement Errored r = Rejected r"
| "settlement Halted r = Rejected (VHaltError r)"
| "settlement st r = Pending"

text \<open>A promise that is pending, whose callbacks no context holds.\<close>

definition stale :: "nat \<Rightarrow> world \<Rightarrow> bool" where
  "stale p w = (promises w p = Pending \<and> (\<forall>m. \<not> refers w m p) \<and> p < next_promise w)"

text \<open>
  The same store with every exit hook replaced by one that returns instead of throwing,
  and the trace such hooks would have left: no \<^verbatim>\<open>console.error\<close>.
\<close>

definition hush_hook :: "hook \<Rightarrow> hook" where
  "hush_hook h = Hook (label h) None"

fun hush_event :: "event \<Rightarrow> event list" where
  "hush_event (HookCall h a) = [HookCall (hush_hook h) a]"
| "hush_event (ConsoleError v) = []"
| "hush_event (CascadeHalt n c r) = [CascadeHalt n c r]"

definition hush_context :: "execution_context \<Rightarrow> execution_context" where
  "hush_context c = c\<lparr>exitHooks := map (\<lambda>e. (fst e, hush_hook (snd e))) (exitHooks c)\<rparr>"

definition hush :: "world \<Rightarrow> world" where
  "hush w = w\<lparr>ctxs := (\<lambda>m. hush_context (ctxs w m)), trace := concat (map hush_event (trace w))\<rparr>"

fun hush_completion :: "'a completion \<Rightarrow> 'a completion" where
  "hush_completion (Normal x w) = Normal x (hush w)"
| "hush_completion (Abrupt e w) = Abrupt e (hush w)"

fun error_of :: "'a completion \<Rightarrow> error option" where
  "error_of (Normal x w) = None"
| "error_of (Abrupt e w) = Some e"

text \<open>The events that a run from one store to a later one has added to the trace.\<close>

definition added :: "world \<Rightarrow> world \<Rightarrow> event list" where
  "added w w' = drop (length (trace w)) (trace w')"

text \<open>
  The children that a context halted in its cascade, each with the reason, and the hooks
  that were called bound to a context, both in the order of the trace.
\<close>

fun cascade_halts :: "nat \<Rightarrow> event list \<Rightarrow> (nat \<times> val) list" where
  "cascade_halts n [] = []"
| "cascade_halts n (CascadeHalt m c r # es) =
     (if m = n then (c, r) # cascade_halts n es else cascade_halts n es)"
| "cascade_halts n (e # es) = cascade_halts n es"

fun hooks_called :: "nat \<Rightarrow> event list \<Rightarrow> hook list" where
  "hooks_called n [] = []"
| "hooks_called n (HookCall h a # es) =
     (if a = Some n then h # hooks_called n es else hooks_called n es)"
| "hooks_called n (e # es) = hooks_called n es"


text \<open>
  A store is a forest when every child of a context has that context as its parent and
  lies strictly below it, by a height \<open>rk\<close> of the contexts.
\<close>

definition forest :: "(nat \<Rightarrow> nat) \<Rightarrow> world \<Rightarrow> bool" where
  "forest rk w =
     (\<forall>p. \<forall>c\<in>set (children (ctxs w p)). parent (ctxs w c) = Some p \<and> rk c < rk p)"

text \<open>Parents are only cleared, and no context gets a child.\<close>

definition detaches :: "world \<Rightarrow> world \<Rightarrow> bool" where
  "detaches w w' =
     (\<forall>m. (parent (ctxs w' m) = parent (ctxs w m) \<or> parent (ctxs w' m) = None)
          \<and> set (children (ctxs w' m)) \<subseteq> set (children (ctxs w m)))"


text \<open>
  The hooks that ran bound to a context, each with that context, in the order of the trace.
\<close>

fun hook_runs :: "event list \<Rightarrow> (nat \<times> hook) list" where
  "hook_runs [] = []"
| "hook_runs (HookCall h (Some a) # es) = (a, h) # hook_runs es"
| "hook_runs (e # es) = hook_runs es"











subsection \<open>Example stores\<close>

definition empty_world :: world where
  "empty_world =
     \<lparr>ctxs = (\<lambda>_. fresh_context False False), ids = 1, promises = (\<lambda>_. Pending),
      next_promise = 0, next_fn = 0, trace = []\<rparr>"

definition node :: "state \<Rightarrow> bool \<Rightarrow> bool \<Rightarrow> nat list \<Rightarrow> nat option \<Rightarrow> val \<Rightarrow> execution_context" where
  "node st req block cs p r =
     (fresh_context req block)\<lparr>state := st, children := cs, parent := p, result := r\<rparr>"

definition handoff_world :: world where
  "handoff_world =
     empty_world\<lparr>ctxs := (ctxs empty_world)
        (1 := node Running False False [2] None VUndefined,
         2 := node Running False False [] (Some 1) VUndefined),
        ids := 3\<rparr>"

definition handed_off :: world where
  "handed_off = world_of (resume contextOf 3 1 (VCtx 2) handoff_world)"

definition fork_world :: world where
  "fork_world =
     empty_world\<lparr>ctxs := (ctxs empty_world)
        (1 := node Running False False [2] None VUndefined,
         2 := node Running True False [] (Some 1) VUndefined),
        ids := 3\<rparr>"

definition waiting_world :: world where
  "waiting_world = world_of (resume contextOf 3 1 (VNum 42) fork_world)"

definition clan_world :: world where
  "clan_world =
     empty_world\<lparr>ctxs := (ctxs empty_world)
        (1 := (node Running False False [2, 3, 4] None VUndefined)
                \<lparr>exitHooks := [(0, Hook 10 None), (1, Hook 11 (Some (VStr ''boom''))), (2, Hook 12 None)]\<rparr>,
         2 := (node Running True False [] (Some 1) VUndefined)\<lparr>exitHooks := [(3, Hook 20 None)]\<rparr>,
         3 := (node Running False False [] (Some 1) VUndefined)\<lparr>exitHooks := [(4, Hook 30 None)]\<rparr>,
         4 := (node Waiting False False [5] (Some 1) (VNum 7))
                \<lparr>exitHooks := [(5, Hook 40 None), (6, Hook 41 None)]\<rparr>,
         5 := (node Running False False [] (Some 4) VUndefined)\<lparr>exitHooks := [(7, Hook 50 None)]\<rparr>),
        ids := 6, next_fn := 8\<rparr>"







definition resurrect_world :: world where
  "resurrect_world =
     empty_world\<lparr>ctxs := (ctxs empty_world)
        (1 := node Running False False [2] None VUndefined,
         2 := node Running True False [] (Some 1) VUndefined,
         3 := node Running False False [] None VUndefined),
        ids := 4\<rparr>"

definition resurrect_hooked :: world where
  "resurrect_hooked =
     world_of (ensure 1 (Hook 11 None)
       (world_of (ensure 1 (Hook 10 None)
          (world_of (fail contextOf 3 3 (VCtx 2) resurrect_world)))))"

definition resurrected :: world where
  "resurrected = world_of (resume contextOf 4 1 (VCtx 3) resurrect_hooked)"

definition fresh_world :: world where
  "fresh_world = snd (new_context False False empty_world)"

declare halt.simps [simp del] fail.simps [simp del] finalize.simps [simp del]
  halt_children.simps [simp del] trapExit.simps [simp del] link.simps [simp del]

lemma isBlocking_iff: "isBlocking w n = (\<not> terminal (state (ctxs w n)))"
  by (cases "state (ctxs w n)")
     (simp_all add: isBlocking_def isRunning_def isWaiting_def isUnstarted_def terminal_def)

lemma ctxs_upd [simp]: "ctxs (upd n f w) = (ctxs w)(n := f (ctxs w n))"
  and trace_upd [simp]: "trace (upd n f w) = trace w"
  and promises_upd [simp]: "promises (upd n f w) = promises w"
  and ids_upd [simp]: "ids (upd n f w) = ids w"
  and next_promise_upd [simp]: "next_promise (upd n f w) = next_promise w"
  and next_fn_upd [simp]: "next_fn (upd n f w) = next_fn w"
  by (simp_all add: upd_def)

lemma ctxs_emit [simp]: "ctxs (emit e w) = ctxs w"
  and trace_emit [simp]: "trace (emit e w) = trace w @ [e]"
  and promises_emit [simp]: "promises (emit e w) = promises w"
  and ids_emit [simp]: "ids (emit e w) = ids w"
  and next_promise_emit [simp]: "next_promise (emit e w) = next_promise w"
  and next_fn_emit [simp]: "next_fn (emit e w) = next_fn w"
  by (simp_all add: emit_def)

lemma ctxs_settle [simp]: "ctxs (settle p s w) = ctxs w"
  and trace_settle [simp]: "trace (settle p s w) = trace w"
  and ids_settle [simp]: "ids (settle p s w) = ids w"
  and next_promise_settle [simp]: "next_promise (settle p s w) = next_promise w"
  and next_fn_settle [simp]: "next_fn (settle p s w) = next_fn w"
  by (simp_all add: settle_def)

lemma promises_settle:
  "promises (settle p s w) q = (if q = p \<and> promises w p = Pending then s else promises w q)"
  by (simp add: settle_def)

lemma ctxs_finalizePromise [simp]: "ctxs (finalizePromise n w) = ctxs w"
  and trace_finalizePromise [simp]: "trace (finalizePromise n w) = trace w"
  and ids_finalizePromise [simp]: "ids (finalizePromise n w) = ids w"
  and next_promise_finalizePromise [simp]: "next_promise (finalizePromise n w) = next_promise w"
  and next_fn_finalizePromise [simp]: "next_fn (finalizePromise n w) = next_fn w"
  by (simp_all add: finalizePromise_def)

lemma promises_finalizePromise:
  "promises (finalizePromise n w) q \<noteq> promises w q \<Longrightarrow>
     promises w q = Pending \<and> (resolve (ctxs w n) = Some q \<or> reject (ctxs w n) = Some q)"
  by (auto simp: finalizePromise_def promises_settle split: if_splits)

lemma ctxs_run_hook [simp]: "ctxs (run_hook n h w) = ctxs w"
  and promises_run_hook [simp]: "promises (run_hook n h w) = promises w"
  and ids_run_hook [simp]: "ids (run_hook n h w) = ids w"
  and next_promise_run_hook [simp]: "next_promise (run_hook n h w) = next_promise w"
  and next_fn_run_hook [simp]: "next_fn (run_hook n h w) = next_fn w"
  and trace_run_hook: "trace (run_hook n h w) = trace w @ hook_events n h"
  by (simp_all add: run_hook_def split: option.split)

lemma ctxs_run_exitHooks [simp]: "ctxs (run_exitHooks n hs w) = ctxs w"
  and promises_run_exitHooks [simp]: "promises (run_exitHooks n hs w) = promises w"
  and ids_run_exitHooks [simp]: "ids (run_exitHooks n hs w) = ids w"
  and next_promise_run_exitHooks [simp]: "next_promise (run_exitHooks n hs w) = next_promise w"
  and next_fn_run_exitHooks [simp]: "next_fn (run_exitHooks n hs w) = next_fn w"
  by (induction hs arbitrary: w; simp)+

lemma trace_run_exitHooks:
  "trace (run_exitHooks n hs w) = trace w @ concat (map (\<lambda>e. hook_events n (snd e)) hs)"
  by (induction hs arbitrary: w) (simp_all add: trace_run_hook del: hook_events.simps)

lemma evolve_refl: "evolve w w"
  by (simp add: evolve_def same_static_def trace_grows_def sticky_def settling_def)

lemma same_static_trans: "same_static a b \<Longrightarrow> same_static b c \<Longrightarrow> same_static a c"
  by (simp add: same_static_def)

lemma trace_grows_trans: "trace_grows a b \<Longrightarrow> trace_grows b c \<Longrightarrow> trace_grows a c"
  by (auto simp: trace_grows_def)

lemma sticky_trans: "sticky a b \<Longrightarrow> sticky b c \<Longrightarrow> sticky a c"
  unfolding sticky_def isBlocking_iff
  apply (intro allI conjI impI)
  apply metis
  apply metis
  apply (metis subset_trans)
  done

lemma settling_trans: "sticky b c \<Longrightarrow> settling a b \<Longrightarrow> settling b c \<Longrightarrow> settling a c"
  unfolding sticky_def settling_def isBlocking_iff by metis

lemma evolve_trans: "evolve a b \<Longrightarrow> evolve b c \<Longrightarrow> evolve a c"
  unfolding evolve_def
  using same_static_trans trace_grows_trans sticky_trans settling_trans by blast


lemma events_of_upd [simp]: "events_of m (upd n f w) = events_of m w"
  and events_of_settle [simp]: "events_of m (settle p s w) = events_of m w"
  and events_of_finalizePromise [simp]: "events_of m (finalizePromise n w) = events_of m w"
  by (simp_all add: events_of_def)

lemma events_of_emit:
  "events_of m (emit e w) = events_of m w @ (if actor e = Some m then [e] else [])"
  by (simp add: events_of_def)

lemma filter_hook_events:
  "filter (\<lambda>e. actor e = Some m) (hook_events n h) = (if m = n then [HookCall h (Some n)] else [])"
  by (auto split: option.split)

lemma events_of_run_exitHooks:
  "events_of m (run_exitHooks n hs w) =
     events_of m w @ (if m = n then map (\<lambda>e. HookCall (snd e) (Some n)) hs else [])"
  by (induction hs arbitrary: w)
     (simp_all add: events_of_def trace_run_hook filter_hook_events del: hook_events.simps)

lemma ctxs_unlink:
  "ctxs (unlink p c w) m =
     (if m = p then (if p = c then (ctxs w p)\<lparr>parent := None, children := set_delete c (children (ctxs w p))\<rparr>
                     else (ctxs w p)\<lparr>children := set_delete c (children (ctxs w p))\<rparr>)
      else if m = c then (ctxs w c)\<lparr>parent := None\<rparr>
      else ctxs w m)"
  by (simp add: unlink_def)

lemma state_unlink [simp]: "state (ctxs (unlink p c w) m) = state (ctxs w m)"
  and result_unlink [simp]: "result (ctxs (unlink p c w) m) = result (ctxs w m)"
  by (simp_all add: ctxs_unlink)

lemma trace_unlink [simp]: "trace (unlink p c w) = trace w"
  and promises_unlink [simp]: "promises (unlink p c w) = promises w"
  and ids_unlink [simp]: "ids (unlink p c w) = ids w"
  and next_promise_unlink [simp]: "next_promise (unlink p c w) = next_promise w"
  and next_fn_unlink [simp]: "next_fn (unlink p c w) = next_fn w"
  and events_of_unlink [simp]: "events_of m (unlink p c w) = events_of m w"
  by (simp_all add: unlink_def)

lemma isBlocking_unlink [simp]: "isBlocking (unlink p c w) m = isBlocking w m"
  by (simp add: isBlocking_iff)

lemma evolve_state: "evolve a b \<Longrightarrow> \<not> isBlocking a m \<Longrightarrow> state (ctxs b m) = state (ctxs a m)"
  unfolding evolve_def sticky_def by metis

lemma evolve_settled: "evolve a b \<Longrightarrow> \<not> isBlocking a m \<Longrightarrow> \<not> isBlocking b m"
  using evolve_state [of a b m] by (simp add: isBlocking_iff)

lemma okw_refl: "okw X Y w w"
  by (simp add: okw_def evolve_refl)

lemma evolve_blocking: "evolve a b \<Longrightarrow> isBlocking b m \<Longrightarrow> isBlocking a m"
  using evolve_settled by blast

lemma evolve_refers: "evolve a b \<Longrightarrow> refers b m p = refers a m p"
  by (simp add: evolve_def same_static_def refers_def)

lemma okw_evolve: "okw X Y a b \<Longrightarrow> evolve a b"
  by (simp add: okw_def)

lemma okw_events: "okw X Y a b \<Longrightarrow> \<not> isBlocking a m \<Longrightarrow> m \<notin> X \<Longrightarrow> events_of m b = events_of m a"
  by (simp add: okw_def)

lemma okw_promises:
  "okw X Y a b \<Longrightarrow> promises b p \<noteq> promises a p \<Longrightarrow>
     promises a p = Pending \<and> (\<exists>m. refers a m p \<and> (isBlocking a m \<or> m \<in> Y))"
  by (simp add: okw_def)

lemma okw_trans:
  assumes ab: "okw X Y a b" and bc: "okw X Y b c"
  shows "okw X Y a c"
proof -
  have ev: "evolve a c" using ab bc evolve_trans okw_evolve by blast
  have events: "events_of m c = events_of m a" if "\<not> isBlocking a m" "m \<notin> X" for m
  proof -
    have "\<not> isBlocking b m" using that ab okw_evolve evolve_settled by blast
    then show ?thesis using that okw_events [OF ab] okw_events [OF bc] by simp
  qed
  have proms: "promises a p = Pending \<and> (\<exists>m. refers a m p \<and> (isBlocking a m \<or> m \<in> Y))"
    if ch: "promises c p \<noteq> promises a p" for p
  proof (cases "promises b p = promises a p")
    case False
    then show ?thesis using okw_promises [OF ab] by blast
  next
    case True
    then have "promises c p \<noteq> promises b p" using ch by simp
    then have "promises b p = Pending" and "\<exists>m. refers b m p \<and> (isBlocking b m \<or> m \<in> Y)"
      using okw_promises [OF bc] by blast+
    then show ?thesis
      using True evolve_refers [OF okw_evolve [OF ab]] evolve_blocking [OF okw_evolve [OF ab]]
      by metis
  qed
  show ?thesis unfolding okw_def using ev events proms by blast
qed

lemma okw_mono: "okw {} {} a b \<Longrightarrow> okw X Y a b"
  unfolding okw_def by blast

lemma okw_weaken: "okw X {} a b \<Longrightarrow> okw X Y a b"
  unfolding okw_def by blast

lemma okw_drop: "isBlocking w n \<Longrightarrow> okw {n} {n} w w' \<Longrightarrow> okw {} {} w w'"
  unfolding okw_def by blast

lemma evolve_set:
  "isBlocking w n \<Longrightarrow> terminal st \<Longrightarrow>
     evolve w (upd n (\<lambda>c. c\<lparr>state := st, result := js_or res (result c)\<rparr>) w)"
  by (auto simp: evolve_def same_static_def trace_grows_def sticky_def settling_def terminal_def)

lemma evolve_emit: "evolve w (emit e w)"
  by (simp add: evolve_def same_static_def trace_grows_def sticky_def settling_def)

lemma evolve_run_exitHooks: "evolve w (run_exitHooks n hs w)"
  by (simp add: evolve_def same_static_def trace_grows_def sticky_def settling_def
        trace_run_exitHooks)

lemma evolve_unlink: "evolve w (unlink p c w)"
  by (auto simp: evolve_def same_static_def trace_grows_def sticky_def settling_def
        ctxs_unlink set_delete_def)

lemma evolve_attach:
  "isBlocking w p \<Longrightarrow>
     evolve w (upd p (\<lambda>x. x\<lparr>children := set_add c (children x)\<rparr>)
                (upd c (\<lambda>x. x\<lparr>parent := Some p\<rparr>) w))"
  by (auto simp: evolve_def same_static_def trace_grows_def sticky_def settling_def)

lemma evolve_finalizePromise: "evolve w (finalizePromise n w)"
  by (auto simp: evolve_def same_static_def trace_grows_def sticky_def settling_def)

lemma okw_set:
  "isBlocking w n \<Longrightarrow> terminal st \<Longrightarrow>
     okw X Y w (upd n (\<lambda>c. c\<lparr>state := st, result := js_or res (result c)\<rparr>) w)"
  by (simp add: okw_def evolve_set)

lemma okw_emit: "okw {n} Y w (emit (CascadeHalt n c r) w)"
  by (simp add: okw_def evolve_emit events_of_emit)

lemma okw_run_exitHooks: "okw {n} Y w (run_exitHooks n hs w)"
  by (simp add: okw_def evolve_run_exitHooks events_of_run_exitHooks)

lemma okw_unlink: "okw X Y w (unlink p c w)"
  by (simp add: okw_def evolve_unlink)

lemma okw_attach:
  "isBlocking w p \<Longrightarrow>
     okw X Y w (upd p (\<lambda>x. x\<lparr>children := set_add c (children x)\<rparr>)
               (upd c (\<lambda>x. x\<lparr>parent := Some p\<rparr>) w))"
  by (simp add: okw_def evolve_attach)

lemma okw_finalizePromise: "okw X {n} w (finalizePromise n w)"
  using promises_finalizePromise [of n w]
  by (auto simp: okw_def evolve_finalizePromise refers_def)


lemma group_ok:
  shows "okw {} {} w (world_of (halt cof k n reason w)) \<and> settles n (halt cof k n reason w)"
    and "okw {} {} w (world_of (fail cof k n err w)) \<and> settles n (fail cof k n err w)"
    and "terminal st \<longrightarrow>
           okw {} {} w (world_of (finalize cof k n st res w)) \<and> settles n (finalize cof k n st res w)"
    and "okw {n} {} w (world_of (halt_children cof k n res cs w))"
    and "okw {} {} w (world_of (trapExit cof k p child w))"
    and "okw {} {} w (world_of (link cof k p child w))"
proof (induct cof k n reason w and cof k n err w and cof k n st res w
         and cof k n res cs w and cof k p child w and cof k p child w
       rule: halt_fail_finalize_halt_children_trapExit_link.induct)
  case (1 cof k n reason w)
  show ?case
  proof (cases "isBlocking w n")
    case True
    with 1 show ?thesis by (simp add: halt.simps terminal_def)
  next
    case False
    then show ?thesis by (simp add: halt.simps okw_refl settles_def)
  qed
next
  case (2 cof k n err w)
  show ?case
  proof (cases "isBlocking w n")
    case True
    with 2 show ?thesis by (simp add: fail.simps terminal_def)
  next
    case False
    then show ?thesis by (simp add: fail.simps okw_refl settles_def)
  qed
next
  case (3 cof n st res w)
  show ?case by (simp add: finalize.simps okw_refl settles_def)
next
  case (4 cof k n st res w)
  show ?case
  proof (intro impI)
    assume st: "terminal st"
    show "okw {} {} w (world_of (finalize cof (Suc k) n st res w))
            \<and> settles n (finalize cof (Suc k) n st res w)"
    proof (cases "isBlocking w n")
      case False
      then show ?thesis by (simp add: finalize.simps okw_refl settles_def)
    next
      case True
      define w1 where "w1 = upd n (\<lambda>c. c\<lparr>state := st, result := js_or res (result c)\<rparr>) w"
      define r1 where "r1 = halt_children cof k n res (rev (children (ctxs w1 n))) w1"
      have step1: "okw {n} {n} w w1"
        unfolding w1_def using True st by (rule okw_set)
      have settled1: "\<not> isBlocking w1 n"
        using st by (simp add: w1_def isBlocking_iff)
      have IH1: "okw {n} {n} w1 (world_of r1)"
        unfolding r1_def using 4(1) [OF True w1_def] by (rule okw_weaken)
      have fin: "okw {n} {n} w (world_of (finalize cof (Suc k) n st res w))
                   \<and> settles n (finalize cof (Suc k) n st res w)"
      proof (cases r1)
        case (Abrupt e w')
        then have "finalize cof (Suc k) n st res w = Abrupt e w'"
          using True by (simp add: finalize.simps Let_def w1_def [symmetric] r1_def [symmetric])
        moreover have "okw {n} {n} w w'"
          using okw_trans [OF step1] IH1 Abrupt by simp
        ultimately show ?thesis by (simp add: settles_def)
      next
        case (Normal u w2)
        define w3 where "w3 = run_exitHooks n (rev (exitHooks (ctxs w2 n))) w2"
        define r3 where "r3 = (case parent (ctxs w3 n) of
                                 Some p \<Rightarrow> trapExit cof k p n w3
                               | None \<Rightarrow> Normal () w3)"
        have step2: "okw {n} {n} w w2"
          using okw_trans [OF step1] IH1 Normal by simp
        have step3: "okw {n} {n} w w3"
          using okw_trans [OF step2 okw_run_exitHooks] by (simp add: w3_def)
        have IH2: "okw {n} {n} w3 (world_of r3)"
        proof (cases "parent (ctxs w3 n)")
          case None
          then show ?thesis by (simp add: r3_def okw_refl)
        next
          case (Some p)
          have "okw {} {} w3 (world_of (trapExit cof k p n w3))"
            using 4(2) [OF True w1_def _ w3_def Some] Normal r1_def by simp
          then show ?thesis using Some by (simp add: r3_def okw_mono)
        qed
        have step4: "okw {n} {n} w (world_of r3)"
          using okw_trans [OF step3 IH2] .
        have eq: "finalize cof (Suc k) n st res w =
                    (case r3 of Abrupt e w' \<Rightarrow> Abrupt e w'
                              | Normal _ w4 \<Rightarrow> Normal () (finalizePromise n w4))"
          using True Normal unfolding r1_def w1_def r3_def w3_def
          by (simp add: finalize.simps Let_def)
        show ?thesis
        proof (cases r3)
          case (Abrupt e w')
          then show ?thesis using eq step4 by (simp add: settles_def)
        next
          case (Normal u4 w4)
          have "okw {n} {n} w (finalizePromise n w4)"
            using okw_trans [OF step4] Normal okw_finalizePromise by simp
          moreover have "\<not> isBlocking (finalizePromise n w4) n"
          proof -
            have "evolve w1 w4"
              using okw_trans [OF IH1] \<open>r1 = Normal u w2\<close> okw_run_exitHooks [of n _ w2]
                okw_trans [OF _ IH2] Normal okw_evolve
              by (metis w3_def world_of.simps(1))
            then have "\<not> isBlocking w4 n" using settled1 evolve_settled by blast
            then show ?thesis by (simp add: isBlocking_iff)
          qed
          ultimately show ?thesis using eq Normal by (simp add: settles_def)
        qed
      qed
      then show ?thesis using okw_drop [OF True] by blast
    qed
  qed
next
  case (5 cof k n res w)
  show ?case by (simp add: halt_children.simps okw_refl)
next
  case (6 cof k n res child rest w)
  show ?case
  proof (cases "blockOnReturnedContext (ctxs w n) \<or> cof (result (ctxs w n)) \<noteq> Some child")
    case False
    then show ?thesis using 6(3) by (simp add: halt_children.simps)
  next
    case True
    define w0 where "w0 = emit (CascadeHalt n child res) w"
    have step0: "okw {n} {} w w0" by (simp add: w0_def okw_emit)
    have IH1: "okw {n} {} w0 (world_of (halt cof k child res w0))"
      using 6(1) [OF True] by (simp add: w0_def okw_mono)
    show ?thesis
    proof (cases "halt cof k child res w0")
      case (Abrupt e w')
      then have "halt_children cof k n res (child # rest) w = Abrupt e w'"
        using True by (simp add: halt_children.simps w0_def)
      then show ?thesis using okw_trans [OF step0 IH1] Abrupt by simp
    next
      case (Normal u w')
      then have "halt_children cof k n res (child # rest) w = halt_children cof k n res rest w'"
        using True by (simp add: halt_children.simps w0_def)
      moreover have "okw {n} {} w' (world_of (halt_children cof k n res rest w'))"
        using 6(2) [OF True] Normal by (simp add: w0_def)
      moreover have "okw {n} {} w w'" using okw_trans [OF step0 IH1] Normal by simp
      ultimately show ?thesis using okw_trans by metis
    qed
  qed
next
  case (7 cof p child w)
  show ?case by (simp add: trapExit.simps okw_refl)
next
  case (8 cof k p child w)
  define w1 where "w1 = unlink p child w"
  define r1 where "r1 = (if isCompleted w1 child then
                           (case cof (result (ctxs w1 child)) of
                              Some d \<Rightarrow> link cof k p d w1
                            | None \<Rightarrow> Normal () w1)
                         else Normal () w1)"
  have step1: "okw {} {} w w1" by (simp add: w1_def okw_unlink)
  have IH1: "okw {} {} w1 (world_of r1)"
    using 8(1) [OF w1_def] by (auto simp: r1_def okw_refl split: option.split)
  have step2: "okw {} {} w (world_of r1)" using okw_trans [OF step1 IH1] .
  have eq: "trapExit cof (Suc k) p child w =
              (case r1 of
                 Abrupt e w' \<Rightarrow> Abrupt e w'
               | Normal _ w2 \<Rightarrow>
                   (if isErrored w2 child then fail cof k p (result (ctxs w2 child)) w2
                    else if isWaiting w2 p
                            \<and> list_all (\<lambda>c. \<not> isRequired (ctxs w2 c)) (children (ctxs w2 p))
                    then finalize cof k p Completed VUndefined w2
                    else Normal () w2))"
    by (simp add: trapExit.simps Let_def w1_def [symmetric] r1_def [symmetric])
  show ?case
  proof (cases r1)
    case (Abrupt e w')
    then show ?thesis using eq step2 by simp
  next
    case (Normal u w2)
    have r1': "(if isCompleted w1 child
                then case cof (result (ctxs w1 child)) of None \<Rightarrow> Normal () w1
                     | Some d \<Rightarrow> link cof k p d w1
                else Normal () w1) = Normal u w2"
      using Normal by (simp add: r1_def)
    have "okw {} {} w2 (world_of (trapExit cof (Suc k) p child w))"
    proof (cases "isErrored w2 child")
      case True
      then show ?thesis using eq Normal 8(2) [OF w1_def r1' True] by simp
    next
      case False
      show ?thesis
      proof (cases "isWaiting w2 p
                      \<and> list_all (\<lambda>c. \<not> isRequired (ctxs w2 c)) (children (ctxs w2 p))")
        case True
        then show ?thesis
          using eq Normal False 8(3) [OF w1_def r1' False True] by (simp add: terminal_def)
      next
        case False
        then show ?thesis using eq Normal \<open>\<not> isErrored w2 child\<close> by (auto simp: okw_refl)
      qed
    qed
    then show ?thesis using okw_trans step2 Normal by (metis world_of.simps(1))
  qed
next
  case (9 cof k p child w)
  show ?case
  proof (cases "p = child")
    case True
    then show ?thesis by (simp add: link.simps okw_refl)
  next
    case False
    define r1 where "r1 = (if \<not> isBlocking w p then halt cof k child VUndefined w else Normal () w)"
    have IH1: "okw {} {} w (world_of r1)"
      using 9(1) [OF False] by (simp add: r1_def okw_refl)
    have eq: "link cof k p child w =
                (case r1 of
                   Abrupt e w' \<Rightarrow> Abrupt e w'
                 | Normal _ w1 \<Rightarrow>
                     (let w2 = (case parent (ctxs w1 child) of
                                  Some q \<Rightarrow> unlink q child w1
                                | None \<Rightarrow> w1) in
                      if isBlocking w2 child then
                        Normal () (upd p (\<lambda>x. x\<lparr>children := set_add child (children x)\<rparr>)
                                     (upd child (\<lambda>x. x\<lparr>parent := Some p\<rparr>) w2))
                      else trapExit cof k p child w2))"
      using False by (simp add: link.simps r1_def [symmetric])
    show ?thesis
    proof (cases r1)
      case (Abrupt e w')
      then show ?thesis using eq IH1 by simp
    next
      case (Normal u w1)
      define w2 where "w2 = (case parent (ctxs w1 child) of
                               Some q \<Rightarrow> unlink q child w1
                             | None \<Rightarrow> w1)"
      have step2: "okw {} {} w1 w2"
        by (simp add: w2_def okw_refl okw_unlink split: option.split)
      have blk2: "isBlocking w2 m = isBlocking w1 m" for m
        by (simp add: w2_def split: option.split)
      have "okw {} {} w2 (world_of (link cof k p child w))"
      proof (cases "isBlocking w2 child")
        case True
        have "isBlocking w p"
        proof (rule ccontr)
          assume np: "\<not> isBlocking w p"
          then have "settles child r1" using 9(1) [OF False np] by (simp add: r1_def)
          then have "\<not> isBlocking w1 child" using Normal by (simp add: settles_def)
          then show False using True blk2 by simp
        qed
        then have "w1 = w" using Normal by (simp add: r1_def)
        then have "isBlocking w2 p" using \<open>isBlocking w p\<close> blk2 by simp
        then show ?thesis
          using eq Normal True by (simp add: w2_def [symmetric] okw_attach)
      next
        case nb: False
        have r1': "(if \<not> isBlocking w p then halt cof k child VUndefined w else Normal () w)
                     = Normal u w1"
          using Normal by (simp add: r1_def)
        show ?thesis
          using eq Normal nb 9(2) [OF False r1' w2_def nb] by (simp add: w2_def [symmetric])
      qed
      then show ?thesis
        using okw_trans [OF okw_trans [OF _ step2]] IH1 Normal by (metis world_of.simps(1))
    qed
  qed
qed

lemmas halt_ok = group_ok(1) and fail_ok = group_ok(2) and finalize_ok = group_ok(3) [rule_format]
  and halt_children_ok = group_ok(4) and trapExit_ok = group_ok(5) and link_ok = group_ok(6)

lemma finalize_settled [simp]: "\<not> isBlocking w n \<Longrightarrow> finalize cof k n st res w = Normal () w"
  by (cases k) (simp_all add: finalize.simps)

lemma halt_settled [simp]: "\<not> isBlocking w n \<Longrightarrow> halt cof k n r w = Normal () w"
  by (simp add: halt.simps)


lemma resume_settled [simp]: "\<not> isBlocking w n \<Longrightarrow> resume cof k n v w = Normal () w"
  by (simp add: resume_def)

text \<open>The steps of an effective \<^verbatim>\<open>finalize\<close> that returns.\<close>

lemma finalize_NormalE:
  assumes "finalize cof (Suc k) n st res w = Normal u w'" and "isBlocking w n"
  obtains w2 w4 where
    "halt_children cof k n res
       (rev (children (ctxs w n)))
       (upd n (\<lambda>c. c\<lparr>state := st, result := js_or res (result c)\<rparr>) w) = Normal () w2"
    and "(case parent (ctxs w2 n) of
            Some p \<Rightarrow> trapExit cof k p n (run_exitHooks n (rev (exitHooks (ctxs w2 n))) w2)
          | None \<Rightarrow> Normal () (run_exitHooks n (rev (exitHooks (ctxs w2 n))) w2)) = Normal () w4"
    and "w' = finalizePromise n w4"
  using assms
  by (auto simp: finalize.simps Let_def split: completion.splits)

lemma finalize_after_set:
  assumes blk: "isBlocking w n" and st: "terminal st"
  shows "okw {n} {n} (upd n (\<lambda>c. c\<lparr>state := st, result := js_or res (result c)\<rparr>) w)
           (world_of (finalize cof (Suc k) n st res w))"
proof -
  define w1 where "w1 = upd n (\<lambda>c. c\<lparr>state := st, result := js_or res (result c)\<rparr>) w"
  define r1 where "r1 = halt_children cof k n res (rev (children (ctxs w1 n))) w1"
  have s1: "okw {n} {n} w1 (world_of r1)"
    unfolding r1_def by (rule okw_weaken [OF halt_children_ok])
  show ?thesis
  proof (cases r1)
    case (Abrupt e w')
    then have "finalize cof (Suc k) n st res w = Abrupt e w'"
      using blk unfolding r1_def w1_def by (simp add: finalize.simps Let_def)
    then show ?thesis using s1 Abrupt by (simp add: w1_def)
  next
    case (Normal u w2)
    define w3 where "w3 = run_exitHooks n (rev (exitHooks (ctxs w2 n))) w2"
    define r3 where "r3 = (case parent (ctxs w3 n) of
                             Some p \<Rightarrow> trapExit cof k p n w3
                           | None \<Rightarrow> Normal () w3)"
    have s3: "okw {n} {n} w1 w3"
      using okw_trans [OF s1] Normal okw_run_exitHooks [of n _ w2] by (simp add: w3_def)
    have "okw {n} {n} w3 (world_of r3)"
      by (simp add: r3_def okw_refl okw_mono trapExit_ok split: option.split)
    then have s4: "okw {n} {n} w1 (world_of r3)" using okw_trans [OF s3] by blast
    have eq: "finalize cof (Suc k) n st res w =
                (case r3 of Abrupt e w' \<Rightarrow> Abrupt e w'
                          | Normal _ w4 \<Rightarrow> Normal () (finalizePromise n w4))"
      using blk Normal unfolding r1_def w1_def r3_def w3_def
      by (simp add: finalize.simps Let_def)
    show ?thesis
    proof (cases r3)
      case (Abrupt e w')
      then show ?thesis using eq s4 by (simp add: w1_def)
    next
      case (Normal u4 w4)
      then have "okw {n} {n} w1 w4" using s4 by simp
      then have "okw {n} {n} w1 (finalizePromise n w4)"
        using okw_trans okw_finalizePromise by blast
      then show ?thesis using eq Normal by (simp add: w1_def)
    qed
  qed
qed

lemma finalize_own:
  assumes blk: "isBlocking w n" and st: "terminal st"
  shows "state (ctxs (world_of (finalize cof (Suc k) n st res w)) n) = st"
    and "result (ctxs (world_of (finalize cof (Suc k) n st res w)) n) = js_or res (result (ctxs w n))"
proof -
  define w1 where "w1 = upd n (\<lambda>c. c\<lparr>state := st, result := js_or res (result c)\<rparr>) w"
  have ev: "evolve w1 (world_of (finalize cof (Suc k) n st res w))"
    unfolding w1_def using finalize_after_set [OF blk st] okw_evolve by blast
  have "\<not> isBlocking w1 n" using st by (simp add: w1_def isBlocking_iff)
  then have "state (ctxs (world_of (finalize cof (Suc k) n st res w)) n) = state (ctxs w1 n)"
    and "result (ctxs (world_of (finalize cof (Suc k) n st res w)) n) = result (ctxs w1 n)"
    using ev unfolding evolve_def sticky_def by blast+
  then show "state (ctxs (world_of (finalize cof (Suc k) n st res w)) n) = st"
    and "result (ctxs (world_of (finalize cof (Suc k) n st res w)) n) = js_or res (result (ctxs w n))"
    by (simp_all add: w1_def)
qed

lemma okw_spared:
  "okw X Y a b \<Longrightarrow> \<not> isBlocking a n \<Longrightarrow> spared cof b n c = spared cof a n c"
  unfolding okw_def evolve_def sticky_def same_static_def spared_def by metis

lemma halt_children_events:
  assumes "halt_children cof k n res cs w = Normal u w'" and "\<not> isBlocking w n"
  shows "events_of n w' =
           events_of n w @ map (\<lambda>c. CascadeHalt n c res) (filter (\<lambda>c. \<not> spared cof w n c) cs)"
  using assms
proof (induction cs arbitrary: w)
  case Nil
  then show ?case by (simp add: halt_children.simps)
next
  case (Cons child rest)
  show ?case
  proof (cases "spared cof w n child")
    case True
    then have "halt_children cof k n res rest w = Normal u w'"
      using Cons.prems(1) by (simp add: halt_children.simps spared_def)
    then show ?thesis using Cons.IH Cons.prems(2) True by simp
  next
    case False
    define w0 where "w0 = emit (CascadeHalt n child res) w"
    obtain w1 where h: "halt cof k child res w0 = Normal () w1"
      and rest: "halt_children cof k n res rest w1 = Normal u w'"
      using Cons.prems(1) False
      by (auto simp: halt_children.simps spared_def w0_def split: completion.splits)
    have nb0: "\<not> isBlocking w0 n" using Cons.prems(2) by (simp add: w0_def isBlocking_iff)
    have ok: "okw {} {} w0 w1" using halt_ok [of w0 cof k child res] h by simp
    have nb1: "\<not> isBlocking w1 n" using ok nb0 okw_evolve evolve_settled by blast
    have e1: "events_of n w1 = events_of n w @ [CascadeHalt n child res]"
      using okw_events [OF ok nb0] by (simp add: w0_def events_of_emit)
    have sp: "spared cof w1 n c = spared cof w n c" for c
      using okw_spared [OF ok nb0] by (simp add: w0_def spared_def)
    show ?thesis using Cons.IH [OF rest nb1] e1 False sp by simp
  qed
qed

lemma finalize_events:
  assumes fin: "finalize cof (Suc k) n st res w = Normal u w'"
    and blk: "isBlocking w n" and st: "terminal st"
  shows "events_of n w' =
           events_of n w
           @ map (\<lambda>c. CascadeHalt n c res)
               (filter (\<lambda>c. \<not> spared cof w' n c) (rev (children (ctxs w n))))
           @ map (\<lambda>e. HookCall (snd e) (Some n)) (rev (exitHooks (ctxs w n)))"
proof -
  define w1 where "w1 = upd n (\<lambda>c. c\<lparr>state := st, result := js_or res (result c)\<rparr>) w"
  obtain w2 w4 where
    hc: "halt_children cof k n res (rev (children (ctxs w n))) w1 = Normal () w2"
    and tr: "(case parent (ctxs w2 n) of
                Some p \<Rightarrow> trapExit cof k p n (run_exitHooks n (rev (exitHooks (ctxs w2 n))) w2)
              | None \<Rightarrow> Normal () (run_exitHooks n (rev (exitHooks (ctxs w2 n))) w2)) = Normal () w4"
    and w': "w' = finalizePromise n w4"
    by (rule finalize_NormalE [OF fin blk]) (auto simp: w1_def)
  define w3 where "w3 = run_exitHooks n (rev (exitHooks (ctxs w2 n))) w2"
  have nb1: "\<not> isBlocking w1 n" using st by (simp add: w1_def isBlocking_iff)
  have ok12: "okw {n} {} w1 w2" using halt_children_ok [of n w1 cof k res "rev (children (ctxs w n))"] hc by simp
  have nb2: "\<not> isBlocking w2 n" using ok12 nb1 okw_evolve evolve_settled by blast
  have nb3: "\<not> isBlocking w3 n" using nb2 by (simp add: w3_def isBlocking_iff)
  have ok34: "okw {} {} w3 w4"
  proof (cases "parent (ctxs w2 n)")
    case None
    then show ?thesis using tr by (simp add: w3_def okw_refl)
  next
    case (Some p)
    then have "trapExit cof k p n w3 = Normal () w4" using tr by (simp add: w3_def)
    then show ?thesis using trapExit_ok [of w3 cof k p n] by simp
  qed
  have hooks: "exitHooks (ctxs w2 n) = exitHooks (ctxs w n)"
    using okw_evolve [OF ok12] by (simp add: evolve_def same_static_def w1_def)
  have e2: "events_of n w2 = events_of n w
              @ map (\<lambda>c. CascadeHalt n c res) (filter (\<lambda>c. \<not> spared cof w1 n c) (rev (children (ctxs w n))))"
    using halt_children_events [OF hc nb1] by (simp add: w1_def)
  have e3: "events_of n w3 = events_of n w2 @ map (\<lambda>e. HookCall (snd e) (Some n)) (rev (exitHooks (ctxs w n)))"
    by (simp add: w3_def events_of_run_exitHooks hooks)
  have e4: "events_of n w' = events_of n w3"
    using okw_events [OF ok34 nb3] by (simp add: w')
  have "okw {n} {n} w1 w'"
    using finalize_after_set [OF blk st, of res cof k] fin by (simp add: w1_def)
  then have "spared cof w' n c = spared cof w1 n c" for c
    using okw_spared nb1 by blast
  then show ?thesis using e2 e3 e4 by simp
qed

lemma returns_unit: "returns r \<Longrightarrow> r = Normal () (world_of r)"
  by (cases r) simp_all

lemma okw_weakly: "okw X Y a b \<Longrightarrow> weakly a b"
  unfolding okw_def weakly_def evolve_def by blast

lemma weakly_refl: "weakly w w"
  using okw_weakly okw_refl by blast

lemma weakly_settled: "weakly a b \<Longrightarrow> \<not> isBlocking a m \<Longrightarrow> \<not> isBlocking b m"
  unfolding weakly_def sticky_def isBlocking_iff by metis

lemma weakly_trans:
  assumes ab: "weakly a b" and bc: "weakly b c"
  shows "weakly a c"
proof -
  have "same_static a c" using ab bc same_static_trans unfolding weakly_def by blast
  moreover have "trace_grows a c" using ab bc trace_grows_trans unfolding weakly_def by blast
  moreover have "sticky a c" using ab bc sticky_trans unfolding weakly_def by blast
  moreover have "promises a p = Pending \<and> (\<exists>m. refers a m p)"
    if ch: "promises c p \<noteq> promises a p" for p
  proof (cases "promises b p = promises a p")
    case False
    then show ?thesis using ab unfolding weakly_def by blast
  next
    case True
    then have "promises c p \<noteq> promises b p" using ch by simp
    then have "promises b p = Pending" and "\<exists>m. refers b m p"
      using bc unfolding weakly_def by blast+
    moreover have "refers b m p = refers a m p" for m
      using ab by (simp add: weakly_def same_static_def refers_def)
    ultimately show ?thesis using True by simp
  qed
  ultimately show ?thesis unfolding weakly_def by blast
qed

text \<open>A change of the state and the result of a context that was blocking at the start.\<close>

lemma weakly_upd:
  assumes "weakly w w2" and "isBlocking w n"
  shows "weakly w (upd n (\<lambda>c. c\<lparr>state := st, result := g (result c)\<rparr>) w2)"
    and "weakly w (upd n (\<lambda>c. c\<lparr>state := st\<rparr>) w2)"
    and "weakly w (upd n (\<lambda>c. c\<lparr>result := r\<rparr>) w2)"
  using assms
  by (auto simp: weakly_def same_static_def trace_grows_def sticky_def refers_def)

lemma finalize_weakly: "weakly w (world_of (finalize cof k n st res w))"
proof (cases "isBlocking w n")
  case False
  then show ?thesis by (simp add: weakly_refl)
next
  case True
  show ?thesis
  proof (cases k)
    case 0
    then show ?thesis using True by (simp add: finalize.simps weakly_refl)
  next
    case (Suc j)
    define w1 where "w1 = upd n (\<lambda>c. c\<lparr>state := st, result := js_or res (result c)\<rparr>) w"
    define r1 where "r1 = halt_children cof j n res (rev (children (ctxs w1 n))) w1"
    have s1: "weakly w w1"
      unfolding w1_def using weakly_upd(1) [OF weakly_refl True] .
    have s2: "weakly w (world_of r1)"
      using weakly_trans [OF s1 okw_weakly [OF halt_children_ok]] by (simp add: r1_def)
    show ?thesis
    proof (cases r1)
      case (Abrupt e w')
      then have "finalize cof k n st res w = Abrupt e w'"
        using True Suc unfolding r1_def w1_def by (simp add: finalize.simps Let_def)
      then show ?thesis using s2 Abrupt by simp
    next
      case (Normal u w2)
      define w3 where "w3 = run_exitHooks n (rev (exitHooks (ctxs w2 n))) w2"
      define r3 where "r3 = (case parent (ctxs w3 n) of
                               Some p \<Rightarrow> trapExit cof j p n w3
                             | None \<Rightarrow> Normal () w3)"
      have s3: "weakly w w3"
        using weakly_trans [OF s2 okw_weakly [OF okw_run_exitHooks]] Normal by (simp add: w3_def)
      have "weakly w3 (world_of r3)"
        by (simp add: r3_def weakly_refl okw_weakly [OF trapExit_ok] split: option.split)
      then have s4: "weakly w (world_of r3)" using weakly_trans [OF s3] by blast
      have eq: "finalize cof k n st res w =
                  (case r3 of Abrupt e w' \<Rightarrow> Abrupt e w'
                            | Normal _ w4 \<Rightarrow> Normal () (finalizePromise n w4))"
        using True Normal Suc unfolding r1_def w1_def r3_def w3_def
        by (simp add: finalize.simps Let_def)
      show ?thesis
      proof (cases r3)
        case (Abrupt e w')
        then show ?thesis using eq s4 by simp
      next
        case (Normal u4 w4)
        then have "weakly w w4" using s4 by simp
        then have "weakly w (finalizePromise n w4)"
          using weakly_trans okw_weakly [OF okw_finalizePromise] by blast
        then show ?thesis using eq Normal by simp
      qed
    qed
  qed
qed

lemma resume_weakly: "weakly w (world_of (resume cof k n v w))"
proof (cases "isBlocking w n")
  case False
  then show ?thesis by (simp add: weakly_refl)
next
  case True
  have rec: "weakly w (world_of (resume_record cof k n v w))"
  proof (cases "isRunning w n")
    case False
    then show ?thesis by (simp add: resume_record_def weakly_refl)
  next
    case run: True
    have s1: "weakly w (upd n (\<lambda>c. c\<lparr>result := v\<rparr>) w)"
      using weakly_upd(3) [OF weakly_refl True] .
    show ?thesis
    proof (cases "cof v")
      case None
      then show ?thesis using run s1 by (simp add: resume_record_def)
    next
      case (Some c)
      then show ?thesis
        using run weakly_trans [OF s1 okw_weakly [OF link_ok]]
        by (simp add: resume_record_def)
    qed
  qed
  show ?thesis
  proof (cases "resume_record cof k n v w")
    case (Abrupt e w')
    then show ?thesis using rec True by (simp add: resume_def)
  next
    case (Normal u w2)
    then have w2: "weakly w w2" using rec by simp
    show ?thesis
      using True Normal weakly_upd(2) [OF w2 True] weakly_trans [OF w2 finalize_weakly]
      by (simp add: resume_def)
  qed
qed


lemma ctxs_promise:
  "ctxs (snd (promise n w)) m =
     (if m = n then (ctxs w n)\<lparr>promise_field := Some (next_promise w),
                              resolve := Some (next_promise w), reject := Some (next_promise w)\<rparr>
      else ctxs w m)"
  by (simp add: promise_def Let_def)

lemma ctxs_ensure:
  "ctxs (world_of (ensure n h w)) m =
     (if m = n \<and> isBlocking w n then (ctxs w n)\<lparr>exitHooks := exitHooks (ctxs w n) @ [(next_fn w, h)]\<rparr>
      else ctxs w m)"
  by (simp add: ensure_def Let_def isBlocking_iff split: option.split)




lemma okw_promise_keep:
  "okw X {} a b \<Longrightarrow> \<forall>m. refers a m p \<longrightarrow> \<not> isBlocking a m \<Longrightarrow> promises b p = promises a p"
  unfolding okw_def by blast

lemma okw_refers: "okw X Y a b \<Longrightarrow> refers b m p = refers a m p"
  using okw_evolve evolve_refers by blast

lemma okw_only_settled:
  assumes "okw X Y a b" and "\<forall>m. refers a m p \<longrightarrow> \<not> isBlocking a m"
  shows "\<forall>m. refers b m p \<longrightarrow> \<not> isBlocking b m"
  using assms okw_refers okw_evolve evolve_settled by metis

lemma finalizePromise_settles:
  assumes "resolve (ctxs w n) = Some p" and "reject (ctxs w n) = Some p" and "promises w p = Pending"
  shows "promises (finalizePromise n w) p = settlement (state (ctxs w n)) (result (ctxs w n))"
  using assms
  by (cases "state (ctxs w n)")
     (simp_all add: finalizePromise_def settle_def isCompleted_def isErrored_def isHalted_def)

lemma finalize_promise:
  assumes fin: "returns (finalize cof (Suc k) n st res w)"
    and blk: "isBlocking w n" and st: "terminal st"
    and cb: "resolve (ctxs w n) = Some p" "reject (ctxs w n) = Some p"
    and pend: "promises w p = Pending"
    and only: "\<forall>m. refers w m p \<longrightarrow> m = n"
  shows "promises (world_of (finalize cof (Suc k) n st res w)) p
           = settlement st (js_or res (result (ctxs w n)))"
proof -
  define w1 where "w1 = upd n (\<lambda>c. c\<lparr>state := st, result := js_or res (result c)\<rparr>) w"
  have fin': "finalize cof (Suc k) n st res w = Normal () (world_of (finalize cof (Suc k) n st res w))"
    using returns_unit [OF fin] .
  obtain w2 w4 where
    hc: "halt_children cof k n res (rev (children (ctxs w n))) w1 = Normal () w2"
    and tr: "(case parent (ctxs w2 n) of
                Some p \<Rightarrow> trapExit cof k p n (run_exitHooks n (rev (exitHooks (ctxs w2 n))) w2)
              | None \<Rightarrow> Normal () (run_exitHooks n (rev (exitHooks (ctxs w2 n))) w2)) = Normal () w4"
    and w': "world_of (finalize cof (Suc k) n st res w) = finalizePromise n w4"
    by (rule finalize_NormalE [OF fin' blk]) (auto simp: w1_def)
  define w3 where "w3 = run_exitHooks n (rev (exitHooks (ctxs w2 n))) w2"
  have nb1: "\<not> isBlocking w1 n" using st by (simp add: w1_def isBlocking_iff)
  have "refers w1 m p = refers w m p" for m
    by (simp add: w1_def refers_def)
  then have only1: "\<forall>m. refers w1 m p \<longrightarrow> \<not> isBlocking w1 m"
    using only nb1 by blast
  have ok12: "okw {n} {} w1 w2"
    using halt_children_ok [of n w1 cof k res "rev (children (ctxs w n))"] hc by simp
  have p2: "promises w2 p = Pending"
    using okw_promise_keep [OF ok12 only1] pend by (simp add: w1_def)
  have only2: "\<forall>m. refers w2 m p \<longrightarrow> \<not> isBlocking w2 m"
    using okw_only_settled [OF ok12 only1] .
  have only3: "\<forall>m. refers w3 m p \<longrightarrow> \<not> isBlocking w3 m"
    using only2 by (simp add: w3_def refers_def isBlocking_iff)
  have ok34: "okw {} {} w3 w4"
  proof (cases "parent (ctxs w2 n)")
    case None
    then show ?thesis using tr by (simp add: w3_def okw_refl)
  next
    case (Some q)
    then have "trapExit cof k q n w3 = Normal () w4" using tr by (simp add: w3_def)
    then show ?thesis using trapExit_ok [of w3 cof k q n] by simp
  qed
  have p4: "promises w4 p = Pending"
    using okw_promise_keep [OF ok34 only3] p2 by (simp add: w3_def)
  have ok14: "okw {n} {n} w1 w4"
    using okw_trans [OF okw_weaken [OF ok12] okw_run_exitHooks [of n _ w2]]
      okw_trans [OF _ okw_mono [OF ok34]] unfolding w3_def by blast
  have same: "same_static w1 w4" and stk: "sticky w1 w4"
    using okw_evolve [OF ok14] by (simp_all add: evolve_def)
  have cb4: "resolve (ctxs w4 n) = Some p" "reject (ctxs w4 n) = Some p"
    using same cb by (simp_all add: same_static_def w1_def)
  have st4: "state (ctxs w4 n) = st" "result (ctxs w4 n) = js_or res (result (ctxs w n))"
    using stk nb1 by (simp_all add: sticky_def w1_def)
  show ?thesis
    using finalizePromise_settles [OF cb4 p4] st4 w' by simp
qed

lemma promise_fst: "fst (promise n w) = next_promise w"
  by (simp add: promise_def Let_def)

lemma next_promise_promise: "next_promise (snd (promise n w)) = Suc (next_promise w)"
  by (simp add: promise_def Let_def)

lemma promises_promise_other:
  "q \<noteq> next_promise w \<Longrightarrow> promises (snd (promise n w)) q = promises w q"
  by (simp add: promise_def Let_def finalizePromise_def promises_settle)

lemma promises_promise_blocking:
  "isBlocking w n \<Longrightarrow> promises (snd (promise n w)) (next_promise w) = Pending"
  by (auto simp: promise_def Let_def finalizePromise_def isBlocking_def isRunning_def
        isWaiting_def isUnstarted_def isCompleted_def isErrored_def isHalted_def)

lemma refers_promise:
  "refers (snd (promise n w)) m q = (if m = n then q = next_promise w else refers w m q)"
  by (auto simp: refers_def ctxs_promise)

lemma isBlocking_promise [simp]: "isBlocking (snd (promise n w)) m = isBlocking w m"
  by (simp add: isBlocking_iff ctxs_promise)

lemma result_promise [simp]: "result (ctxs (snd (promise n w)) m) = result (ctxs w m)"
  by (simp add: ctxs_promise)

lemma weakly_stale: "weakly w w' \<Longrightarrow> stale p w \<Longrightarrow> stale p w'"
  unfolding weakly_def stale_def same_static_def refers_def by metis

lemma promises_ensure [simp]: "promises (world_of (ensure n h w)) = promises w"
  and next_promise_ensure [simp]: "next_promise (world_of (ensure n h w)) = next_promise w"
  by (simp_all add: ensure_def Let_def split: option.split)

lemma perform_stale:
  assumes "stale p w"
  shows "stale p (perform cof k c w)"
proof (cases c)
  case (Halt m r)
  then show ?thesis using weakly_stale [OF okw_weakly [OF halt_ok [THEN conjunct1]] assms] by simp
next
  case (Fail m r)
  then show ?thesis using weakly_stale [OF okw_weakly [OF fail_ok [THEN conjunct1]] assms] by simp
next
  case (Resume m v)
  then show ?thesis using weakly_stale [OF resume_weakly assms] by simp
next
  case (Finalize m st r)
  then show ?thesis using weakly_stale [OF finalize_weakly assms] by simp
next
  case (TrapExit q c)
  then show ?thesis using weakly_stale [OF okw_weakly [OF trapExit_ok] assms] by simp
next
  case (Link q c)
  then show ?thesis using weakly_stale [OF okw_weakly [OF link_ok] assms] by simp
next
  case (Unlink q c)
  then show ?thesis using weakly_stale [OF okw_weakly [OF okw_unlink] assms] by simp
next
  case (Ensure m h)
  then show ?thesis using assms by (simp add: stale_def refers_def ctxs_ensure)
next
  case (Unregister u)
  then show ?thesis
    using assms by (cases u) (simp_all add: stale_def refers_def call_unregister_def)
next
  case (Promise m)
  have "p \<noteq> next_promise w" using assms by (simp add: stale_def)
  then show ?thesis
    using assms Promise
    by (simp add: stale_def refers_promise promises_promise_other next_promise_promise)
qed

lemma perform_all_stale: "stale p w \<Longrightarrow> stale p (perform_all cof k cs w)"
  by (induction cs arbitrary: w) (simp_all add: perform_stale)

lemma ctxs_hush [simp]: "ctxs (hush w) m = hush_context (ctxs w m)"
  and promises_hush [simp]: "promises (hush w) = promises w"
  and trace_hush: "trace (hush w) = concat (map hush_event (trace w))"
  by (simp_all add: hush_def)

lemma hush_context_fields [simp]:
  "state (hush_context c) = state c"
  "result (hush_context c) = result c"
  "children (hush_context c) = children c"
  "parent (hush_context c) = parent c"
  "isRequired (hush_context c) = isRequired c"
  "blockOnReturnedContext (hush_context c) = blockOnReturnedContext c"
  "resolve (hush_context c) = resolve c"
  "reject (hush_context c) = reject c"
  "exitHooks (hush_context c) = map (\<lambda>e. (fst e, hush_hook (snd e))) (exitHooks c)"
  by (simp_all add: hush_context_def)

lemma hush_getters [simp]:
  "isBlocking (hush w) n = isBlocking w n"
  "isCompleted (hush w) n = isCompleted w n"
  "isErrored (hush w) n = isErrored w n"
  "isHalted (hush w) n = isHalted w n"
  "isWaiting (hush w) n = isWaiting w n"
  "isRunning (hush w) n = isRunning w n"
  by (simp_all add: isBlocking_def isCompleted_def isErrored_def isHalted_def isWaiting_def
        isRunning_def isUnstarted_def)

lemma returns_hush_completion [simp]: "returns (hush_completion r) = returns r"
  by (cases r) simp_all

lemma world_of_hush_completion [simp]: "world_of (hush_completion r) = hush (world_of r)"
  by (cases r) simp_all

lemma hush_upd:
  assumes "\<And>c. hush_context (f c) = f (hush_context c)"
  shows "upd n f (hush w) = hush (upd n f w)"
  using assms by (simp add: hush_def upd_def fun_eq_iff)

lemma hush_upd_set [simp]:
  "upd n (\<lambda>c. c\<lparr>state := st, result := js_or res (result c)\<rparr>) (hush w)
     = hush (upd n (\<lambda>c. c\<lparr>state := st, result := js_or res (result c)\<rparr>) w)"
  by (rule hush_upd) (simp add: hush_context_def)

lemma hush_emit [simp]:
  "emit (CascadeHalt n c r) (hush w) = hush (emit (CascadeHalt n c r) w)"
  by (simp add: hush_def emit_def)

lemma hush_unlink [simp]: "unlink p c (hush w) = hush (unlink p c w)"
  by (simp add: unlink_def hush_def upd_def fun_eq_iff hush_context_def)

lemma hush_attach [simp]:
  "upd p (\<lambda>x. x\<lparr>children := set_add c (children x)\<rparr>) (upd c (\<lambda>x. x\<lparr>parent := Some p\<rparr>) (hush w))
     = hush (upd p (\<lambda>x. x\<lparr>children := set_add c (children x)\<rparr>) (upd c (\<lambda>x. x\<lparr>parent := Some p\<rparr>) w))"
  by (simp add: hush_def upd_def fun_eq_iff hush_context_def)

lemma hush_settle: "settle p s (hush w) = hush (settle p s w)"
  by (simp add: settle_def hush_def)

lemma hush_finalizePromise [simp]: "finalizePromise n (hush w) = hush (finalizePromise n w)"
  by (auto simp: finalizePromise_def hush_settle)

lemma hush_run_hook: "run_hook n (hush_hook h) (hush w) = hush (run_hook n h w)"
  by (simp add: run_hook_def hush_hook_def hush_def emit_def split: option.split)

lemma hush_run_exitHooks:
  "run_exitHooks n (map (\<lambda>e. (fst e, hush_hook (snd e))) hs) (hush w) = hush (run_exitHooks n hs w)"
  by (induction hs arbitrary: w) (simp_all add: hush_run_hook)

lemma hush_group:
  shows "halt cof k n reason (hush w) = hush_completion (halt cof k n reason w)"
    and "fail cof k n err (hush w) = hush_completion (fail cof k n err w)"
    and "finalize cof k n st res (hush w) = hush_completion (finalize cof k n st res w)"
    and "halt_children cof k n res cs (hush w) = hush_completion (halt_children cof k n res cs w)"
    and "trapExit cof k p child (hush w) = hush_completion (trapExit cof k p child w)"
    and "link cof k p child (hush w) = hush_completion (link cof k p child w)"
proof (induct cof k n reason w and cof k n err w and cof k n st res w
         and cof k n res cs w and cof k p child w and cof k p child w
       rule: halt_fail_finalize_halt_children_trapExit_link.induct)
  case (1 cof k n reason w)
  then show ?case by (simp add: halt.simps)
next
  case (2 cof k n err w)
  then show ?case by (simp add: fail.simps)
next
  case (3 cof n st res w)
  show ?case by (simp add: finalize.simps)
next
  case (4 cof k n st res w)
  show ?case
  proof (cases "isBlocking w n")
    case False
    then show ?thesis by (simp add: finalize.simps)
  next
    case True
    define w1 where "w1 = upd n (\<lambda>c. c\<lparr>state := st, result := js_or res (result c)\<rparr>) w"
    define r1 where "r1 = halt_children cof k n res (rev (children (ctxs w1 n))) w1"
    have IH1: "halt_children cof k n res (rev (children (ctxs w1 n))) (hush w1) = hush_completion r1"
      unfolding r1_def using 4(1) [OF True w1_def] .
    show ?thesis
    proof (cases r1)
      case (Abrupt e w')
      then show ?thesis
        using True IH1 unfolding r1_def w1_def by (simp add: finalize.simps Let_def)
    next
      case (Normal u w2)
      define w3 where "w3 = run_exitHooks n (rev (exitHooks (ctxs w2 n))) w2"
      have h3: "run_exitHooks n (rev (map (\<lambda>e. (fst e, hush_hook (snd e))) (exitHooks (ctxs w2 n))))
                  (hush w2) = hush w3"
        by (simp add: w3_def rev_map hush_run_exitHooks)
      have par: "parent (ctxs w3 n) = parent (ctxs w2 n)" by (simp add: w3_def)
      show ?thesis
      proof (cases "parent (ctxs w2 n)")
        case None
        have "finalize cof (Suc k) n st res (hush w) = Normal () (finalizePromise n (hush w3))"
          using True IH1 Normal None unfolding r1_def w1_def
          by (simp add: finalize.simps Let_def h3 del: hush_finalizePromise)
        moreover have "finalize cof (Suc k) n st res w = Normal () (finalizePromise n w3)"
          using True Normal None unfolding r1_def w1_def w3_def
          by (simp add: finalize.simps Let_def)
        ultimately show ?thesis by simp
      next
        case (Some p)
        have IH2: "trapExit cof k p n (hush w3) = hush_completion (trapExit cof k p n w3)"
          using 4(2) [OF True w1_def _ w3_def] Normal r1_def Some par by simp
        have "finalize cof (Suc k) n st res (hush w) =
                (case trapExit cof k p n (hush w3) of
                   Abrupt e w' \<Rightarrow> Abrupt e w'
                 | Normal _ w4 \<Rightarrow> Normal () (finalizePromise n w4))"
          using True IH1 Normal Some unfolding r1_def w1_def
          by (simp add: finalize.simps Let_def h3 del: hush_finalizePromise)
        moreover have "finalize cof (Suc k) n st res w =
                (case trapExit cof k p n w3 of
                   Abrupt e w' \<Rightarrow> Abrupt e w'
                 | Normal _ w4 \<Rightarrow> Normal () (finalizePromise n w4))"
          using True Normal Some unfolding r1_def w1_def w3_def
          by (simp add: finalize.simps Let_def)
        ultimately show ?thesis
          using IH2 by (cases "trapExit cof k p n w3") simp_all
      qed
    qed
  qed
next
  case (5 cof k n res w)
  show ?case by (simp add: halt_children.simps)
next
  case (6 cof k n res child rest w)
  show ?case
  proof (cases "blockOnReturnedContext (ctxs w n) \<or> cof (result (ctxs w n)) \<noteq> Some child")
    case False
    then show ?thesis using 6(3) by (simp add: halt_children.simps)
  next
    case True
    define w0 where "w0 = emit (CascadeHalt n child res) w"
    have IH1: "halt cof k child res (hush w0) = hush_completion (halt cof k child res w0)"
      using 6(1) [OF True] by (simp add: w0_def)
    show ?thesis
    proof (cases "halt cof k child res w0")
      case (Abrupt e w')
      then show ?thesis
        using True IH1 by (simp add: halt_children.simps w0_def)
    next
      case (Normal u w')
      then show ?thesis
        using True IH1 6(2) [OF True] by (simp add: halt_children.simps w0_def)
    qed
  qed
next
  case (7 cof p child w)
  show ?case by (simp add: trapExit.simps)
next
  case (8 cof k p child w)
  define w1 where "w1 = unlink p child w"
  define r1 where "r1 = (if isCompleted w1 child then
                           (case cof (result (ctxs w1 child)) of
                              Some d \<Rightarrow> link cof k p d w1
                            | None \<Rightarrow> Normal () w1)
                         else Normal () w1)"
  have IH1: "(if isCompleted w1 child then
                (case cof (result (ctxs w1 child)) of
                   Some d \<Rightarrow> link cof k p d (hush w1)
                 | None \<Rightarrow> Normal () (hush w1))
              else Normal () (hush w1)) = hush_completion r1"
    using 8(1) [OF w1_def] by (auto simp: r1_def split: option.split)
  have inner: "(if isCompleted (hush w1) child then
                  (case cof (result (ctxs (hush w1) child)) of
                     Some d \<Rightarrow> link cof k p d (hush w1)
                   | None \<Rightarrow> Normal () (hush w1))
                else Normal () (hush w1)) = hush_completion r1"
    using 8(1) [OF w1_def] by (auto simp: r1_def split: option.split)
  have "trapExit cof (Suc k) p child (hush w) =
               (case (if isCompleted (hush w1) child then
                        (case cof (result (ctxs (hush w1) child)) of
                           Some d \<Rightarrow> link cof k p d (hush w1)
                         | None \<Rightarrow> Normal () (hush w1))
                      else Normal () (hush w1)) of
                  Abrupt e w' \<Rightarrow> Abrupt e w'
                | Normal _ w2 \<Rightarrow>
                    (if isErrored w2 child then fail cof k p (result (ctxs w2 child)) w2
                     else if isWaiting w2 p
                             \<and> list_all (\<lambda>c. \<not> isRequired (ctxs w2 c)) (children (ctxs w2 p))
                     then finalize cof k p Completed VUndefined w2
                     else Normal () w2))"
    by (simp only: trapExit.simps Let_def hush_unlink w1_def)
  then have lhs: "trapExit cof (Suc k) p child (hush w) =
               (case hush_completion r1 of
                  Abrupt e w' \<Rightarrow> Abrupt e w'
                | Normal _ w2 \<Rightarrow>
                    (if isErrored w2 child then fail cof k p (result (ctxs w2 child)) w2
                     else if isWaiting w2 p
                             \<and> list_all (\<lambda>c. \<not> isRequired (ctxs w2 c)) (children (ctxs w2 p))
                     then finalize cof k p Completed VUndefined w2
                     else Normal () w2))"
    unfolding inner .
  have rhs: "trapExit cof (Suc k) p child w =
               (case r1 of
                  Abrupt e w' \<Rightarrow> Abrupt e w'
                | Normal _ w2 \<Rightarrow>
                    (if isErrored w2 child then fail cof k p (result (ctxs w2 child)) w2
                     else if isWaiting w2 p
                             \<and> list_all (\<lambda>c. \<not> isRequired (ctxs w2 c)) (children (ctxs w2 p))
                     then finalize cof k p Completed VUndefined w2
                     else Normal () w2))"
    by (simp only: trapExit.simps Let_def w1_def r1_def)
  show ?case
  proof (cases r1)
    case (Abrupt e w')
    then show ?thesis unfolding lhs rhs by simp
  next
    case (Normal u w2)
    have r1': "(if isCompleted w1 child
                then case cof (result (ctxs w1 child)) of None \<Rightarrow> Normal () w1
                     | Some d \<Rightarrow> link cof k p d w1
                else Normal () w1) = Normal u w2"
      using Normal by (simp add: r1_def)
    show ?thesis
    proof (cases "isErrored w2 child")
      case True
      then show ?thesis
        unfolding lhs rhs using Normal 8(2) [OF w1_def r1' True] by simp
    next
      case False
      show ?thesis
      proof (cases "isWaiting w2 p
                      \<and> list_all (\<lambda>c. \<not> isRequired (ctxs w2 c)) (children (ctxs w2 p))")
        case True
        then show ?thesis
          unfolding lhs rhs using Normal False 8(3) [OF w1_def r1' False True] by simp
      next
        case nw: False
        then show ?thesis
          unfolding lhs rhs using Normal False by auto
      qed
    qed
  qed
next
  case (9 cof k p child w)
  show ?case
  proof (cases "p = child")
    case True
    then show ?thesis by (simp add: link.simps)
  next
    case False
    define r1 where "r1 = (if \<not> isBlocking w p then halt cof k child VUndefined w else Normal () w)"
    have IH1: "(if \<not> isBlocking w p then halt cof k child VUndefined (hush w) else Normal () (hush w))
                 = hush_completion r1"
      using 9(1) [OF False] by (simp add: r1_def)
    show ?thesis
    proof (cases r1)
      case (Abrupt e w')
      then show ?thesis
        using False IH1 unfolding r1_def by (simp add: link.simps)
    next
      case (Normal u w1)
      define w2 where "w2 = (case parent (ctxs w1 child) of
                               Some q \<Rightarrow> unlink q child w1
                             | None \<Rightarrow> w1)"
      have h2: "(case parent (ctxs (hush w1) child) of
                   Some q \<Rightarrow> unlink q child (hush w1)
                 | None \<Rightarrow> hush w1) = hush w2"
        by (simp add: w2_def split: option.split)
      have r1': "(if \<not> isBlocking w p then halt cof k child VUndefined w else Normal () w)
                   = Normal u w1"
        using Normal by (simp add: r1_def)
      have IH2: "trapExit cof k p child (hush w2) = hush_completion (trapExit cof k p child w2)"
        if "\<not> isBlocking w2 child"
        using 9(2) [OF False r1' w2_def that] .
      have lhs: "link cof k p child (hush w) =
                   (if isBlocking w2 child then
                      Normal () (upd p (\<lambda>x. x\<lparr>children := set_add child (children x)\<rparr>)
                                   (upd child (\<lambda>x. x\<lparr>parent := Some p\<rparr>) (hush w2)))
                    else trapExit cof k p child (hush w2))"
        using False IH1 Normal h2 unfolding r1_def
        by (simp add: link.simps Let_def del: hush_attach hush_context_fields ctxs_hush)
      have rhs: "link cof k p child w =
                   (if isBlocking w2 child then
                      Normal () (upd p (\<lambda>x. x\<lparr>children := set_add child (children x)\<rparr>)
                                   (upd child (\<lambda>x. x\<lparr>parent := Some p\<rparr>) w2))
                    else trapExit cof k p child w2)"
        using False Normal unfolding r1_def w2_def
        by (simp add: link.simps Let_def)
      show ?thesis
        unfolding lhs rhs using IH2 by simp
    qed
  qed
qed

lemma group_no_hook_error:
  shows "error_of (halt cof k n reason w) \<noteq> Some (HookThrew x)"
    and "error_of (fail cof k n err w) \<noteq> Some (HookThrew x)"
    and "error_of (finalize cof k n st res w) \<noteq> Some (HookThrew x)"
    and "error_of (halt_children cof k n res cs w) \<noteq> Some (HookThrew x)"
    and "error_of (trapExit cof k p child w) \<noteq> Some (HookThrew x)"
    and "error_of (link cof k p child w) \<noteq> Some (HookThrew x)"
proof (induct cof k n reason w and cof k n err w and cof k n st res w
         and cof k n res cs w and cof k p child w and cof k p child w
       rule: halt_fail_finalize_halt_children_trapExit_link.induct)
  case (1 cof k n reason w)
  then show ?case by (simp add: halt.simps)
next
  case (2 cof k n err w)
  then show ?case by (simp add: fail.simps)
next
  case (3 cof n st res w)
  show ?case by (simp add: finalize.simps)
next
  case (4 cof k n st res w)
  show ?case
  proof (cases "isBlocking w n")
    case False
    then show ?thesis by (simp add: finalize.simps)
  next
    case True
    define w1 where "w1 = upd n (\<lambda>c. c\<lparr>state := st, result := js_or res (result c)\<rparr>) w"
    define r1 where "r1 = halt_children cof k n res (rev (children (ctxs w1 n))) w1"
    have IH1: "error_of r1 \<noteq> Some (HookThrew x)"
      unfolding r1_def using 4(1) [OF True w1_def] .
    show ?thesis
    proof (cases r1)
      case (Abrupt e w')
      then show ?thesis
        using True IH1 unfolding r1_def w1_def by (simp add: finalize.simps Let_def)
    next
      case (Normal u w2)
      define w3 where "w3 = run_exitHooks n (rev (exitHooks (ctxs w2 n))) w2"
      have par: "parent (ctxs w3 n) = parent (ctxs w2 n)" by (simp add: w3_def)
      show ?thesis
      proof (cases "parent (ctxs w2 n)")
        case None
        then show ?thesis
          using True Normal unfolding r1_def w1_def by (simp add: finalize.simps Let_def)
      next
        case (Some p)
        have IH2: "error_of (trapExit cof k p n w3) \<noteq> Some (HookThrew x)"
          using 4(2) [OF True w1_def _ w3_def] Normal r1_def Some par by simp
        have "finalize cof (Suc k) n st res w =
                (case trapExit cof k p n w3 of
                   Abrupt e w' \<Rightarrow> Abrupt e w'
                 | Normal _ w4 \<Rightarrow> Normal () (finalizePromise n w4))"
          using True Normal Some unfolding r1_def w1_def w3_def
          by (simp add: finalize.simps Let_def)
        then show ?thesis
          using IH2 by (cases "trapExit cof k p n w3") simp_all
      qed
    qed
  qed
next
  case (5 cof k n res w)
  show ?case by (simp add: halt_children.simps)
next
  case (6 cof k n res child rest w)
  then show ?case
    by (auto simp: halt_children.simps split: completion.splits)
next
  case (7 cof p child w)
  show ?case by (simp add: trapExit.simps)
next
  case (8 cof k p child w)
  define w1 where "w1 = unlink p child w"
  define r1 where "r1 = (if isCompleted w1 child then
                           (case cof (result (ctxs w1 child)) of
                              Some d \<Rightarrow> link cof k p d w1
                            | None \<Rightarrow> Normal () w1)
                         else Normal () w1)"
  have IH1: "error_of r1 \<noteq> Some (HookThrew x)"
    using 8(1) [OF w1_def] by (auto simp: r1_def split: option.split)
  have rhs: "trapExit cof (Suc k) p child w =
               (case r1 of
                  Abrupt e w' \<Rightarrow> Abrupt e w'
                | Normal _ w2 \<Rightarrow>
                    (if isErrored w2 child then fail cof k p (result (ctxs w2 child)) w2
                     else if isWaiting w2 p
                             \<and> list_all (\<lambda>c. \<not> isRequired (ctxs w2 c)) (children (ctxs w2 p))
                     then finalize cof k p Completed VUndefined w2
                     else Normal () w2))"
    by (simp only: trapExit.simps Let_def w1_def r1_def)
  show ?case
  proof (cases r1)
    case (Abrupt e w')
    then show ?thesis unfolding rhs using IH1 by simp
  next
    case (Normal u w2)
    have r1': "(if isCompleted w1 child
                then case cof (result (ctxs w1 child)) of None \<Rightarrow> Normal () w1
                     | Some d \<Rightarrow> link cof k p d w1
                else Normal () w1) = Normal u w2"
      using Normal by (simp add: r1_def)
    show ?thesis
    proof (cases "isErrored w2 child")
      case True
      then show ?thesis
        unfolding rhs using Normal 8(2) [OF w1_def r1' True] by simp
    next
      case False
      show ?thesis
      proof (cases "isWaiting w2 p
                      \<and> list_all (\<lambda>c. \<not> isRequired (ctxs w2 c)) (children (ctxs w2 p))")
        case True
        then show ?thesis
          unfolding rhs using Normal False 8(3) [OF w1_def r1' False True] by simp
      next
        case nw: False
        then show ?thesis
          unfolding rhs using Normal False by auto
      qed
    qed
  qed
next
  case (9 cof k p child w)
  show ?case
  proof (cases "p = child")
    case True
    then show ?thesis by (simp add: link.simps)
  next
    case False
    define r1 where "r1 = (if \<not> isBlocking w p then halt cof k child VUndefined w else Normal () w)"
    have IH1: "error_of r1 \<noteq> Some (HookThrew x)"
      using 9(1) [OF False] by (simp add: r1_def)
    show ?thesis
    proof (cases r1)
      case (Abrupt e w')
      then show ?thesis
        using False IH1 unfolding r1_def by (simp add: link.simps)
    next
      case (Normal u w1)
      define w2 where "w2 = (case parent (ctxs w1 child) of
                               Some q \<Rightarrow> unlink q child w1
                             | None \<Rightarrow> w1)"
      have r1': "(if \<not> isBlocking w p then halt cof k child VUndefined w else Normal () w)
                   = Normal u w1"
        using Normal by (simp add: r1_def)
      have IH2: "error_of (trapExit cof k p child w2) \<noteq> Some (HookThrew x)"
        if "\<not> isBlocking w2 child"
        using 9(2) [OF False r1' w2_def that] .
      have rhs: "link cof k p child w =
                   (if isBlocking w2 child then
                      Normal () (upd p (\<lambda>x. x\<lparr>children := set_add child (children x)\<rparr>)
                                   (upd child (\<lambda>x. x\<lparr>parent := Some p\<rparr>) w2))
                    else trapExit cof k p child w2)"
        using False Normal unfolding r1_def w2_def
        by (simp add: link.simps Let_def)
      show ?thesis
        unfolding rhs using IH2 by simp
    qed
  qed
qed

lemma cascade_halts_append [simp]:
  "cascade_halts n (xs @ ys) = cascade_halts n xs @ cascade_halts n ys"
  by (induction n xs rule: cascade_halts.induct) simp_all

lemma hooks_called_append [simp]:
  "hooks_called n (xs @ ys) = hooks_called n xs @ hooks_called n ys"
  by (induction n xs rule: hooks_called.induct) simp_all


lemma hooks_called_filter:
  "hooks_called n (filter (\<lambda>e. actor e = Some n) es) = hooks_called n es"
  by (induction n es rule: hooks_called.induct) auto

lemma cascade_halts_map_halt [simp]:
  "cascade_halts n (map (\<lambda>c. CascadeHalt n c r) cs) = map (\<lambda>c. (c, r)) cs"
  by (induction cs) simp_all

lemma cascade_halts_map_hook [simp]:
  "cascade_halts n (map (\<lambda>e. HookCall (snd e) (Some m)) hs) = []"
  by (induction hs) simp_all

lemma hooks_called_map_halt [simp]:
  "hooks_called n (map (\<lambda>c. CascadeHalt m c r) cs) = []"
  by (induction cs) simp_all

lemma hooks_called_map_hook [simp]:
  "hooks_called n (map (\<lambda>e. HookCall (snd e) (Some n)) hs) = map snd hs"
  by (induction hs) simp_all

lemma events_of_added:
  assumes "trace_grows w w'"
  shows "events_of n w' = events_of n w @ filter (\<lambda>e. actor e = Some n) (added w w')"
  using assms by (auto simp: trace_grows_def events_of_def added_def)




lemma trapExit_errored_child:
  assumes err: "isErrored w c" and blk: "isBlocking w p"
  shows "state (ctxs (world_of (trapExit cof (Suc (Suc k)) p c w)) p) = Errored"
    and "result (ctxs (world_of (trapExit cof (Suc (Suc k)) p c w)) p)
           = js_or (result (ctxs w c)) (result (ctxs w p))"
proof -
  define w1 where "w1 = unlink p c w"
  have nc: "\<not> isCompleted w1 c" and e1: "isErrored w1 c"
    using err by (simp_all add: w1_def isCompleted_def isErrored_def)
  have blk1: "isBlocking w1 p" using blk by (simp add: w1_def)
  have eq: "trapExit cof (Suc (Suc k)) p c w = finalize cof (Suc k) p Errored (result (ctxs w c)) w1"
    using nc e1 blk1 by (simp add: trapExit.simps Let_def w1_def [symmetric] fail.simps) (simp add: w1_def)
  have te: "terminal Errored" by (simp add: terminal_def)
  show "state (ctxs (world_of (trapExit cof (Suc (Suc k)) p c w)) p) = Errored"
    unfolding eq using finalize_own(1) [OF blk1 te] .
  show "result (ctxs (world_of (trapExit cof (Suc (Suc k)) p c w)) p)
           = js_or (result (ctxs w c)) (result (ctxs w p))"
    unfolding eq using finalize_own(2) [where res = "result (ctxs w c)", OF blk1 te]
    by (simp add: w1_def)
qed

lemma evolve_running:
  assumes "evolve w w'" and "state (ctxs w' m) = Running"
  shows "state (ctxs w m) = Running"
proof (rule ccontr)
  assume "state (ctxs w m) \<noteq> Running"
  then have "state (ctxs w' m) \<noteq> state (ctxs w m)" using assms(2) by simp
  then have "terminal (state (ctxs w' m))" using assms(1) by (simp add: evolve_def settling_def)
  then show False using assms(2) by (simp add: terminal_def)
qed

lemma unstarted_settles:
  assumes "isUnstarted w n"
  shows "state (ctxs (world_of (halt cof (Suc k) n r w)) n) = Halted"
    and "state (ctxs (world_of (fail cof (Suc k) n r w)) n) = Errored"
    and "operation (ctxs (world_of (halt cof (Suc k) n r w)) n) = operation (ctxs w n)"
    and "operation (ctxs (world_of (fail cof (Suc k) n r w)) n) = operation (ctxs w n)"
    and "\<forall>m. state (ctxs (world_of (halt cof (Suc k) n r w)) m) = Running \<longrightarrow> state (ctxs w m) = Running"
    and "\<forall>m. state (ctxs (world_of (fail cof (Suc k) n r w)) m) = Running \<longrightarrow> state (ctxs w m) = Running"
proof -
  have blk: "isBlocking w n" using assms by (simp add: isBlocking_def)
  have th: "terminal Halted" and te: "terminal Errored" by (simp_all add: terminal_def)
  have evh: "evolve w (world_of (halt cof (Suc k) n r w))"
    and evf: "evolve w (world_of (fail cof (Suc k) n r w))"
    using halt_ok fail_ok okw_evolve by blast+
  show "state (ctxs (world_of (halt cof (Suc k) n r w)) n) = Halted"
    using blk finalize_own(1) [OF blk th] by (simp add: halt.simps)
  show "state (ctxs (world_of (fail cof (Suc k) n r w)) n) = Errored"
    using blk finalize_own(1) [OF blk te] by (simp add: fail.simps)
  show "operation (ctxs (world_of (halt cof (Suc k) n r w)) n) = operation (ctxs w n)"
    using evh by (simp add: evolve_def same_static_def)
  show "operation (ctxs (world_of (fail cof (Suc k) n r w)) n) = operation (ctxs w n)"
    using evf by (simp add: evolve_def same_static_def)
  show "\<forall>m. state (ctxs (world_of (halt cof (Suc k) n r w)) m) = Running \<longrightarrow> state (ctxs w m) = Running"
    using evolve_running [OF evh] by blast
  show "\<forall>m. state (ctxs (world_of (fail cof (Suc k) n r w)) m) = Running \<longrightarrow> state (ctxs w m) = Running"
    using evolve_running [OF evf] by blast
qed



lemma forest_detaches:
  assumes "forest rk w" and "detaches w w'"
    and "\<forall>p. \<forall>c\<in>set (children (ctxs w' p)). parent (ctxs w' c) \<noteq> None"
  shows "forest rk w'"
  unfolding forest_def
proof (intro allI ballI)
  fix p c
  assume c: "c \<in> set (children (ctxs w' p))"
  then have "c \<in> set (children (ctxs w p))" using assms(2) unfolding detaches_def by blast
  then have "parent (ctxs w c) = Some p" and "rk c < rk p"
    using assms(1) unfolding forest_def by blast+
  moreover have "parent (ctxs w' c) \<noteq> None" using assms(3) c by blast
  ultimately show "parent (ctxs w' c) = Some p \<and> rk c < rk p"
    using assms(2) unfolding detaches_def by metis
qed






lemma detaches_ctxs: "ctxs w' = ctxs w \<Longrightarrow> detaches w w'"
  by (simp add: detaches_def)























lemma hook_runs_append [simp]: "hook_runs (xs @ ys) = hook_runs xs @ hook_runs ys"
  by (induction xs rule: hook_runs.induct) simp_all

lemma hook_runs_map_halt [simp]: "hook_runs (map (\<lambda>c. CascadeHalt n c r) cs) = []"
  by (induction cs) simp_all

lemma hook_runs_map_hook [simp]:
  "hook_runs (map (\<lambda>e. HookCall (snd e) (Some n)) hs) = map (\<lambda>e. (n, snd e)) hs"
  by (induction hs) simp_all







lemma added_same: "trace w' = trace w \<Longrightarrow> added w w' = []"
  by (simp add: added_def)

lemma added_eq: "trace w' = trace v' \<Longrightarrow> added w w' = added w v'"
  by (simp add: added_def)




















lemma js_or_undefined [simp]: "js_or VUndefined v = v"
  by (simp add: js_or_def)





text \<open>
  Within one \<^verbatim>\<open>finalize\<close> that returns, the hooks called bound to the context are the
  registered ones, each once, last registered first. Whether hooks throw changes nothing
  else: the same call in the store where every hook returns instead gives the same
  completion and the same store, up to the \<^verbatim>\<open>console.error\<close> lines; and no \<^verbatim>\<open>finalize\<close>
  completes with the exception of a hook.
\<close>

lemma finalize_hooks:
  assumes "isBlocking w n" and "terminal st"
  shows "returns (finalize cof (Suc k) n st res w) \<longrightarrow>
           hooks_called n (added w (world_of (finalize cof (Suc k) n st res w)))
             = map snd (rev (exitHooks (ctxs w n)))"
    and "finalize cof (Suc k) n st res (hush w) = hush_completion (finalize cof (Suc k) n st res w)"
    and "error_of (finalize cof (Suc k) n st res w) \<noteq> Some (HookThrew x)"
proof -
  show "returns (finalize cof (Suc k) n st res w) \<longrightarrow>
           hooks_called n (added w (world_of (finalize cof (Suc k) n st res w)))
             = map snd (rev (exitHooks (ctxs w n)))"
  proof
    assume ret: "returns (finalize cof (Suc k) n st res w)"
    define w' where "w' = world_of (finalize cof (Suc k) n st res w)"
    have fin: "finalize cof (Suc k) n st res w = Normal () w'"
      unfolding w'_def using returns_unit [OF ret] .
    have grows: "trace_grows w w'"
      using finalize_weakly [of w cof "Suc k" n st res] by (simp add: weakly_def w'_def)
    have "filter (\<lambda>e. actor e = Some n) (added w w') =
                 map (\<lambda>c. CascadeHalt n c res)
                    (filter (\<lambda>c. \<not> spared cof w' n c) (rev (children (ctxs w n))))
                 @ map (\<lambda>e. HookCall (snd e) (Some n)) (rev (exitHooks (ctxs w n)))"
      using events_of_added [OF grows, of n] finalize_events [OF fin assms(1,2)] by simp
    then have "hooks_called n (filter (\<lambda>e. actor e = Some n) (added w w')) =
                 map snd (rev (exitHooks (ctxs w n)))"
      by simp
    then show "hooks_called n (added w (world_of (finalize cof (Suc k) n st res w)))
                 = map snd (rev (exitHooks (ctxs w n)))"
      unfolding w'_def by (simp add: hooks_called_filter)
  qed
  show "finalize cof (Suc k) n st res (hush w) = hush_completion (finalize cof (Suc k) n st res w)"
    by (rule hush_group(3))
  show "error_of (finalize cof (Suc k) n st res w) \<noteq> Some (HookThrew x)"
    by (rule group_no_hook_error(3))
qed

text \<open>
  On a settled context \<^verbatim>\<open>ensure(hook)\<close> calls the hook once, at once, and leaves every
  context as it is; when the hook returns, it returns the identity function, which
  changes nothing when called.
\<close>

lemma ensure_settled:
  assumes "\<not> isBlocking w n"
  shows "trace (world_of (ensure n h w)) = trace w @ [HookCall h None]"
    and "ctxs (world_of (ensure n h w)) = ctxs w"
    and "throws h = None \<Longrightarrow> ensure n h w = Normal Identity (emit (HookCall h None) w)"
    and "ensure n h w = Normal u w' \<Longrightarrow> call_unregister u w'' = w''"
  using assms by (auto simp: ensure_def call_unregister_def split: option.splits)

section \<open>The claims\<close>







text \<open>
  Claim C3, at a failing input. The claim: after \<^verbatim>\<open>finalize(state, result)\<close> on a blocking
  context the stored result is the argument whenever one was given, also a falsy one. The
  code stores \<^verbatim>\<open>result || this.result\<close>: a context that waits with the result 42 and is
  finalized with 0, \<^verbatim>\<open>false\<close> or the empty string keeps 42; with 5 it stores 5. In general
  the stored result is \<open>js_or res\<close> of the one before (lemma \<open>finalize_own\<close>).
\<close>

theorem finalize_drops_falsy_result:
  "isWaiting waiting_world 1
   \<and> result (ctxs waiting_world 1) = VNum 42
   \<and> returns (finalize contextOf 3 1 Halted (VNum 0) waiting_world)
   \<and> result (ctxs (world_of (finalize contextOf 3 1 Halted (VNum 0) waiting_world)) 1) = VNum 42
   \<and> result (ctxs (world_of (finalize contextOf 3 1 Halted (VBool False) waiting_world)) 1) = VNum 42
   \<and> result (ctxs (world_of (finalize contextOf 3 1 Halted (VStr []) waiting_world)) 1) = VNum 42
   \<and> result (ctxs (world_of (finalize contextOf 3 1 Halted (VNum 5) waiting_world)) 1) = VNum 5"
  by code_simp




text \<open>
  Claim C5, at a failing input. The claim: the errored result of the parent is the first
  child error it observed. A parent that waits with the result 42 on a required child,
  which then fails with 0: the child is errored with no result, \<^verbatim>\<open>trapExit\<close> calls
  \<^verbatim>\<open>fail(child.result)\<close>, and the parent is errored with the result 42, not with the error
  of its child. In general the parent gets \<open>js_or\<close> of the child's result and its own
  (lemma \<open>trapExit_errored_child\<close>); with a truthy error that is the child's error, and
  a later \<^verbatim>\<open>fail\<close> on the settled parent does nothing (lemma \<open>fail_settled\<close>).
\<close>

theorem falsy_child_error_is_dropped:
  "isWaiting waiting_world 1
   \<and> result (ctxs waiting_world 1) = VNum 42
   \<and> isRunning waiting_world 2
   \<and> parent (ctxs waiting_world 2) = Some 1
   \<and> returns (fail contextOf 4 2 (VNum 0) waiting_world)
   \<and> isErrored (world_of (fail contextOf 4 2 (VNum 0) waiting_world)) 2
   \<and> result (ctxs (world_of (fail contextOf 4 2 (VNum 0) waiting_world)) 2) = VUndefined
   \<and> isErrored (world_of (fail contextOf 4 2 (VNum 0) waiting_world)) 1
   \<and> result (ctxs (world_of (fail contextOf 4 2 (VNum 0) waiting_world)) 1) = VNum 42"
  by code_simp

text \<open>
  Claim C6: the promise of a settled context is resolved with the stored result when the
  context is completed, rejected with the stored result when it is errored, and rejected
  with a \<^verbatim>\<open>HaltError\<close> around the stored result when it is halted; that rejection differs
  from the one an errored context with the same result gives.
\<close>

theorem facade_terminal_mapping:
  assumes "\<not> isBlocking w n"
  shows "(isCompleted w n \<longrightarrow>
            promises (snd (promise n w)) (fst (promise n w)) = Resolved (result (ctxs w n)))
         \<and> (isErrored w n \<longrightarrow>
            promises (snd (promise n w)) (fst (promise n w)) = Rejected (result (ctxs w n)))
         \<and> (isHalted w n \<longrightarrow>
            promises (snd (promise n w)) (fst (promise n w)) = Rejected (VHaltError (result (ctxs w n)))
            \<and> promises (snd (promise n w)) (fst (promise n w)) \<noteq> Rejected (result (ctxs w n)))
         \<and> (isCompleted w n \<or> isErrored w n \<or> isHalted w n)"
  using assms
  by (auto simp: promise_def Let_def finalizePromise_def settle_def isBlocking_def
        isCompleted_def isErrored_def isHalted_def isRunning_def isWaiting_def isUnstarted_def)
     (cases "state (ctxs w n)"; simp)

theorem facade_terminal_mapping_witness:
  "\<not> isBlocking handed_off 1
   \<and> isCompleted handed_off 1
   \<and> promises (snd (promise 1 handed_off)) (fst (promise 1 handed_off)) = Resolved (VCtx 2)
   \<and> \<not> isBlocking (world_of (halt contextOf 3 2 (VStr ''stop'') handed_off)) 2
   \<and> promises (snd (promise 2 (world_of (halt contextOf 3 2 (VStr ''stop'') handed_off))))
        (fst (promise 2 (world_of (halt contextOf 3 2 (VStr ''stop'') handed_off))))
       = Rejected (VHaltError (VStr ''stop''))"
proof -
  have h1: "\<not> isBlocking handed_off 1"
    and c1: "isCompleted handed_off 1"
    and r1: "result (ctxs handed_off 1) = VCtx 2"
    and h2: "\<not> isBlocking (world_of (halt contextOf 3 2 (VStr ''stop'') handed_off)) 2"
    and c2: "isHalted (world_of (halt contextOf 3 2 (VStr ''stop'') handed_off)) 2"
    and r2: "result (ctxs (world_of (halt contextOf 3 2 (VStr ''stop'') handed_off)) 2) = VStr ''stop''"
    by code_simp+
  show ?thesis
    using facade_terminal_mapping [OF h1] facade_terminal_mapping [OF h2] h1 c1 r1 h2 c2 r2
    by simp
qed

text \<open>
  Claim C7, at a failing input. The claim: at \<^verbatim>\<open>finalize\<close> every exit hook queued with
  \<^verbatim>\<open>ensure\<close> runs exactly once. Context 1 runs with the required child 2, and context 3
  has failed with the error value 2. Two hooks are registered on 1 with \<^verbatim>\<open>ensure\<close>; then
  1 is resumed with 3. \<^verbatim>\<open>resume\<close> links 3, which is errored, so \<^verbatim>\<open>trapExit\<close> fails 1:
  its hooks run, last registered first, and its cascade spares 2, the context embedded in
  its result. Back in \<^verbatim>\<open>resume\<close>, the required child 2 is still there, and
  \<^verbatim>\<open>this.state = 'waiting'\<close> is assigned to a context that has settled. When 2 is halted,
  \<^verbatim>\<open>trapExit\<close> finalizes 1 again, as completed, and both hooks run a second time. Within
  one \<^verbatim>\<open>finalize\<close> the claim holds (lemma \<open>finalize_hooks\<close>).
\<close>

theorem exit_hooks_run_twice:
  "isRunning resurrect_world 1
   \<and> children (ctxs resurrect_world 1) = [2]
   \<and> isRequired (ctxs resurrect_world 2)
   \<and> isErrored resurrect_hooked 3
   \<and> result (ctxs resurrect_hooked 3) = VCtx 2
   \<and> map snd (exitHooks (ctxs resurrect_hooked 1)) = [Hook 10 None, Hook 11 None]
   \<and> trace resurrect_hooked = []
   \<and> returns (resume contextOf 4 1 (VCtx 3) resurrect_hooked)
   \<and> hooks_called 1 (trace resurrected) = [Hook 11 None, Hook 10 None]
   \<and> isWaiting resurrected 1
   \<and> returns (halt contextOf 4 2 VUndefined resurrected)
   \<and> isCompleted (world_of (halt contextOf 4 2 VUndefined resurrected)) 1
   \<and> hooks_called 1 (trace (world_of (halt contextOf 4 2 VUndefined resurrected)))
       = [Hook 11 None, Hook 10 None, Hook 11 None, Hook 10 None]"
  by code_simp

text \<open>
  Claim C8, at a failing input. The claim: on a settled context \<^verbatim>\<open>ensure(hook)\<close> runs the
  hook once and returns an unregister function. With a hook that throws, the hook runs
  once and its exception leaves \<^verbatim>\<open>ensure\<close>, which returns nothing: the call \<^verbatim>\<open>hook()\<close>
  in the \<^verbatim>\<open>else\<close> branch has no \<^verbatim>\<open>try\<close> around it, whereas \<^verbatim>\<open>finalize\<close> catches the
  exception of the same hook and returns. With a hook that returns the claim holds (lemma
  \<open>ensure_settled\<close>).
\<close>

theorem ensure_throwing_hook:
  "\<not> isBlocking handed_off 1
   \<and> \<not> returns (ensure 1 (Hook 11 (Some (VStr ''boom''))) handed_off)
   \<and> error_of (ensure 1 (Hook 11 (Some (VStr ''boom''))) handed_off) = Some (HookThrew (VStr ''boom''))
   \<and> trace (world_of (ensure 1 (Hook 11 (Some (VStr ''boom''))) handed_off))
       = [HookCall (Hook 11 (Some (VStr ''boom''))) None]
   \<and> isBlocking clan_world 1
   \<and> Hook 11 (Some (VStr ''boom'')) \<in> snd ` set (exitHooks (ctxs clan_world 1))
   \<and> returns (finalize contextOf 4 1 Halted (VStr ''shutdown'') clan_world)"
  by code_simp

text \<open>
  Claim C9, at a failing input. The claim: \<^verbatim>\<open>resume\<close> on a context that was never entered
  and has no children that count finalizes it as completed with the given value. A new
  context resumed with 0 is completed, never running and with no operation, but its
  result is \<^verbatim>\<open>undefined\<close>, not 0. That \<^verbatim>\<open>halt\<close> and \<^verbatim>\<open>fail\<close> settle an unstarted context
  without a running state and without an operation is lemma \<open>unstarted_settles\<close>.
\<close>

theorem unstarted_resume_drops_falsy_value:
  "fst (new_context False False empty_world) = 1
   \<and> isUnstarted fresh_world 1
   \<and> children (ctxs fresh_world 1) = []
   \<and> returns (resume contextOf 3 1 (VNum 0) fresh_world)
   \<and> isCompleted (world_of (resume contextOf 3 1 (VNum 0) fresh_world)) 1
   \<and> result (ctxs (world_of (resume contextOf 3 1 (VNum 0) fresh_world)) 1) = VUndefined
   \<and> operation (ctxs (world_of (resume contextOf 3 1 (VNum 0) fresh_world)) 1) = None"
  by code_simp

text \<open>
  Claim C10: on a context that has not settled, and in a store where every stored callback
  belongs to a promise that exists, two accesses to \<^verbatim>\<open>promise\<close> give two different
  promises, both pending, and the context then holds the callbacks of the second one only.
  Whatever is called afterwards, the first promise stays pending; when the context
  settles, the second is settled by the state the context settles in.
\<close>

theorem earlier_promise_never_settles:
  assumes blk: "isBlocking w n"
    and wf: "\<forall>m q. refers w m q \<longrightarrow> q < next_promise w"
    and first: "promise n w = (p1, w1)"
    and second: "promise n w1 = (p2, w2)"
  shows "p1 \<noteq> p2
         \<and> promises w2 p1 = Pending \<and> promises w2 p2 = Pending
         \<and> resolve (ctxs w2 n) = Some p2 \<and> reject (ctxs w2 n) = Some p2
         \<and> promises (perform_all cof k cs w2) p1 = Pending
         \<and> (terminal st \<and> returns (finalize cof (Suc j) n st res w2) \<longrightarrow>
              promises (world_of (finalize cof (Suc j) n st res w2)) p2
                = settlement st (js_or res (result (ctxs w n)))
              \<and> promises (world_of (finalize cof (Suc j) n st res w2)) p1 = Pending)"
proof -
  have p1: "p1 = next_promise w" and w1: "w1 = snd (promise n w)"
    using first promise_fst [of n w] by (simp_all add: prod_eq_iff)
  have p2: "p2 = Suc (next_promise w)" and w2: "w2 = snd (promise n w1)"
    using second promise_fst [of n w1] next_promise_promise [of n w] w1 by (simp_all add: prod_eq_iff)
  have blk1: "isBlocking w1 n" and blk2: "isBlocking w2 n" using blk by (simp_all add: w1 w2)
  have ne: "p1 \<noteq> p2" by (simp add: p1 p2)
  have pend1: "promises w2 p1 = Pending"
    using promises_promise_blocking [OF blk] promises_promise_other [of p1 w1 n]
    by (simp add: w2 w1 p1 next_promise_promise)
  have pend2: "promises w2 p2 = Pending"
    using promises_promise_blocking [OF blk1] by (simp add: w2 p2 w1 next_promise_promise)
  have cb: "resolve (ctxs w2 n) = Some p2" "reject (ctxs w2 n) = Some p2"
    by (simp_all add: w2 ctxs_promise p2 w1 next_promise_promise)
  have refs2: "refers w2 m q = (if m = n then q = p2 else refers w m q)" for m q
    by (simp add: w2 w1 refers_promise p2 next_promise_promise)
  have st1: "stale p1 w2"
    unfolding stale_def using pend1 wf ne refs2
    by (auto simp: w2 w1 next_promise_promise p1)
  have after: "promises (perform_all cof k cs w2) p1 = Pending"
    using perform_all_stale [OF st1] by (simp add: stale_def)
  have only2: "\<forall>m. refers w2 m p2 \<longrightarrow> m = n"
  proof (intro allI impI)
    fix m
    assume r: "refers w2 m p2"
    show "m = n"
    proof (rule ccontr)
      assume "m \<noteq> n"
      then have "refers w m p2" using refs2 r by simp
      then have "p2 < next_promise w" using wf by blast
      then show False by (simp add: p2)
    qed
  qed
  have res2: "result (ctxs w2 n) = result (ctxs w n)" by (simp add: w2 w1)
  have settle: "promises (world_of (finalize cof (Suc j) n st res w2)) p2
                  = settlement st (js_or res (result (ctxs w n)))
                \<and> promises (world_of (finalize cof (Suc j) n st res w2)) p1 = Pending"
    if "terminal st" and "returns (finalize cof (Suc j) n st res w2)"
  proof -
    have "promises (world_of (finalize cof (Suc j) n st res w2)) p2
            = settlement st (js_or res (result (ctxs w2 n)))"
      using finalize_promise [OF that(2) blk2 that(1) cb pend2 only2] .
    moreover have "stale p1 (world_of (finalize cof (Suc j) n st res w2))"
      using weakly_stale [OF finalize_weakly st1] .
    ultimately show ?thesis unfolding stale_def res2 by blast
  qed
  from settle have "terminal st \<and> returns (finalize cof (Suc j) n st res w2) \<longrightarrow>
              promises (world_of (finalize cof (Suc j) n st res w2)) p2
                = settlement st (js_or res (result (ctxs w n)))
              \<and> promises (world_of (finalize cof (Suc j) n st res w2)) p1 = Pending"
    by blast
  with ne pend1 pend2 cb after show ?thesis by (intro conjI)
qed

theorem earlier_promise_never_settles_witness:
  "isBlocking fork_world 1
   \<and> fst (promise 1 fork_world) \<noteq> fst (promise 1 (snd (promise 1 fork_world)))
   \<and> promises (perform_all contextOf 4 [Halt 1 (VStr ''stop''), Promise 1]
        (snd (promise 1 (snd (promise 1 fork_world))))) (fst (promise 1 fork_world)) = Pending
   \<and> promises (world_of (finalize contextOf (Suc 3) 1 Halted (VStr ''stop'')
        (snd (promise 1 (snd (promise 1 fork_world))))))
        (fst (promise 1 (snd (promise 1 fork_world)))) = Rejected (VHaltError (VStr ''stop''))
   \<and> promises (world_of (finalize contextOf (Suc 3) 1 Halted (VStr ''stop'')
        (snd (promise 1 (snd (promise 1 fork_world))))))
        (fst (promise 1 fork_world)) = Pending"
proof -
  have h1: "isBlocking fork_world 1" by code_simp
  have h2: "\<forall>m q. refers fork_world m q \<longrightarrow> q < next_promise fork_world"
    by (simp add: refers_def fork_world_def empty_world_def node_def fresh_context_def)
  have h3: "promise 1 fork_world = (fst (promise 1 fork_world), snd (promise 1 fork_world))"
    and h4: "promise 1 (snd (promise 1 fork_world))
               = (fst (promise 1 (snd (promise 1 fork_world))), snd (promise 1 (snd (promise 1 fork_world))))"
    by simp_all
  have t: "terminal Halted" by (simp add: terminal_def)
  have r: "returns (finalize contextOf (Suc 3) 1 Halted (VStr ''stop'')
             (snd (promise 1 (snd (promise 1 fork_world)))))"
    and v: "js_or (VStr ''stop'') (result (ctxs fork_world 1)) = VStr ''stop''"
    by code_simp+
  show ?thesis
    using earlier_promise_never_settles [OF h1 h2 h3 h4, of contextOf 4
        "[Halt 1 (VStr ''stop''), Promise 1]" Halted 3 "VStr ''stop''"] h1 h2 t r v
    by simp
qed

end
